theory Spec2Isabelle
  imports Main "HOL-Library.AList" "HOL-Library.Product_Lexorder"
begin

section \<open>Data model of the wallet ledger (src/wallet/wallet.cpp)\<close>

text \<open>
  Hashes (\<^verbatim>\<open>uint256\<close>: transaction ids, block hashes, nullifiers, note commitments) are
  opaque totally ordered identifiers; they are modelled as natural numbers, the order
  standing for the comparison that \<^verbatim>\<open>std::map\<close>, \<^verbatim>\<open>std::multimap\<close> and \<^verbatim>\<open>std::set\<close> use.
  A transparent outpoint \<^verbatim>\<open>COutPoint(hash, n)\<close> is the pair \<open>(hash, n)\<close>, ordered
  lexicographically as \<^verbatim>\<open>COutPoint::operator<\<close> orders it.
\<close>

type_synonym uint256 = nat

type_synonym COutPoint = "uint256 \<times> nat"

datatype SproutOutPoint = SproutOutPoint uint256 nat nat

datatype SaplingOutPoint = SaplingOutPoint uint256 nat

text \<open>The transaction a note outpoint lies in (its field \<^verbatim>\<open>hash\<close>).\<close>

fun sprout_hash :: "SproutOutPoint \<Rightarrow> uint256" where
  "sprout_hash (SproutOutPoint h js i) = h"

fun sapling_hash :: "SaplingOutPoint \<Rightarrow> uint256" where
  "sapling_hash (SaplingOutPoint h i) = h"

record JSDescription =
  nullifiers :: "uint256 list"
  commitments :: "uint256 list"

text \<open>
  The transaction payload. Of \<^verbatim>\<open>CTxIn\<close> only \<^verbatim>\<open>prevout\<close> is kept, of
  \<^verbatim>\<open>SpendDescription\<close> only \<^verbatim>\<open>nullifier\<close>, of \<^verbatim>\<open>OutputDescription\<close> only \<^verbatim>\<open>cm\<close>.
  \<open>GetHash\<close>, \<open>IsCoinBase\<close> and \<open>HasWitness\<close> are the results of the payload's methods of
  these names.
\<close>

record CTransaction =
  GetHash :: uint256
  vin :: "COutPoint list"
  vJoinSplit :: "JSDescription list"
  vShieldedSpend :: "uint256 list"
  vShieldedOutput :: "uint256 list"
  IsCoinBase :: bool
  HasWitness :: bool

text \<open>
  Modelled from the spec: the incremental Merkle witness class is declared outside
  wallet.cpp. A witness is represented by the commitment tree it was taken from and the
  commitments appended to it since; \<^verbatim>\<open>append\<close> adds one commitment.
\<close>

datatype IncrementalWitness = IncrementalWitness (wit_tree: "uint256 list") (wit_filled: "uint256 list")

definition witness_append :: "IncrementalWitness \<Rightarrow> uint256 \<Rightarrow> IncrementalWitness" where
  "witness_append wit cm = IncrementalWitness (wit_tree wit) (wit_filled wit @ [cm])"

text \<open>
  \<^verbatim>\<open>SproutNoteData\<close> and \<^verbatim>\<open>SaplingNoteData\<close>: the fields wallet.cpp reads and writes.
  \<open>witnesses\<close> is the \<^verbatim>\<open>std::list\<close> of witnesses, front first.
\<close>

record NoteData =
  nullifier :: "uint256 option"
  witnesses :: "IncrementalWitness list"
  witnessHeight :: int
  witnessRootValidated :: bool

datatype Status = UNCONFIRMED | CONFIRMED | CONFLICTED | ABANDONED

record Confirmation =
  status :: Status
  hashBlock :: uint256
  nIndex :: int

text \<open>
  A wallet transaction. \<open>fCached\<close> stands for the cached debit and credit amounts, which
  \<^verbatim>\<open>CWalletTx::MarkDirty\<close> resets. A \<^verbatim>\<open>std::map\<close> is an association list in key order.
\<close>

record CWalletTx =
  tx :: CTransaction
  m_confirm :: Confirmation
  mapSproutNoteData :: "(SproutOutPoint \<times> NoteData) list"
  mapSaplingNoteData :: "(SaplingOutPoint \<times> NoteData) list"
  fFromMe :: bool
  fInMempool :: bool
  nOrderPos :: int
  nTimeReceived :: int
  fCached :: bool

datatype DbRecord = WriteTx CWalletTx | WriteOrderPosNext int

text \<open>
  The wallet. The spend index is the three multimaps \<open>mapTxSpends\<close>,
  \<open>mapTxSproutNullifiers\<close> and \<open>mapTxSaplingNullifiers\<close>, lists of (key, wtxid) entries in
  key order. \<open>db\<close> is the log of records written to the wallet database, newest last.
\<close>

record CWallet =
  mapWallet :: "(uint256 \<times> CWalletTx) list"
  mapTxSpends :: "(COutPoint \<times> uint256) list"
  mapTxSproutNullifiers :: "(uint256 \<times> uint256) list"
  mapTxSaplingNullifiers :: "(uint256 \<times> uint256) list"
  mapSproutNullifiersToNotes :: "(uint256 \<times> SproutOutPoint) list"
  mapSaplingNullifiersToNotes :: "(uint256 \<times> SaplingOutPoint) list"
  setLockedCoins :: "COutPoint list"
  wtxOrdered :: "(int \<times> uint256) list"
  nOrderPosNext :: int
  db :: "DbRecord list"

datatype error = OutOfRange | AssertionFailed | UndefinedBehaviour

subsection \<open>Ordered containers\<close>

text \<open>
  \<^verbatim>\<open>multimap::lower_bound\<close>, \<^verbatim>\<open>multimap::equal_range\<close> and \<^verbatim>\<open>multimap::insert\<close> (which
  puts a new entry at the upper bound of its key's range) on a list in key order.
\<close>

definition lower_bound :: "'k::linorder \<Rightarrow> ('k \<times> 'v) list \<Rightarrow> ('k \<times> 'v) list" where
  "lower_bound k xs = dropWhile (\<lambda>e. fst e < k) xs"

definition equal_range :: "'k::linorder \<Rightarrow> ('k \<times> 'v) list \<Rightarrow> ('k \<times> 'v) list" where
  "equal_range k xs = takeWhile (\<lambda>e. \<not> k < fst e) (lower_bound k xs)"

fun multimap_insert :: "'k::linorder \<Rightarrow> 'v \<Rightarrow> ('k \<times> 'v) list \<Rightarrow> ('k \<times> 'v) list" where
  "multimap_insert k v [] = [(k, v)]"
| "multimap_insert k v (e # xs) =
     (if k < fst e then (k, v) # e # xs else e # multimap_insert k v xs)"

text \<open>\<^verbatim>\<open>map::insert\<close>: inserts only if the key is not there yet.\<close>

fun map_insert :: "'k::linorder \<Rightarrow> 'v \<Rightarrow> ('k \<times> 'v) list \<Rightarrow> ('k \<times> 'v) list" where
  "map_insert k v [] = [(k, v)]"
| "map_insert k v (e # xs) =
     (if k < fst e then (k, v) # e # xs
      else if k = fst e then e # xs
      else e # map_insert k v xs)"

text \<open>\<^verbatim>\<open>map[key] = value\<close>: overwrites the value of a key, or inserts the key.\<close>

fun map_assign :: "'k::linorder \<Rightarrow> 'v \<Rightarrow> ('k \<times> 'v) list \<Rightarrow> ('k \<times> 'v) list" where
  "map_assign k v [] = [(k, v)]"
| "map_assign k v (e # xs) =
     (if k < fst e then (k, v) # e # xs
      else if k = fst e then (k, v) # xs
      else e # map_assign k v xs)"

subsection \<open>Confirmation status and depth\<close>

text \<open>
  Modelled from the spec: the status accessors of \<^verbatim>\<open>CWalletTx\<close> are declared outside
  wallet.cpp; they test and set \<^verbatim>\<open>m_confirm.status\<close>, one of the four states of a
  wallet transaction.
\<close>

definition isAbandoned :: "CWalletTx \<Rightarrow> bool" where
  "isAbandoned wtx = (status (m_confirm wtx) = ABANDONED)"

definition isConflicted :: "CWalletTx \<Rightarrow> bool" where
  "isConflicted wtx = (status (m_confirm wtx) = CONFLICTED)"

definition isUnconfirmed :: "CWalletTx \<Rightarrow> bool" where
  "isUnconfirmed wtx = (status (m_confirm wtx) = UNCONFIRMED)"

definition setAbandoned :: "CWalletTx \<Rightarrow> CWalletTx" where
  "setAbandoned wtx = wtx\<lparr>m_confirm := (m_confirm wtx)\<lparr>status := ABANDONED\<rparr>\<rparr>"

definition setConflicted :: "CWalletTx \<Rightarrow> CWalletTx" where
  "setConflicted wtx = wtx\<lparr>m_confirm := (m_confirm wtx)\<lparr>status := CONFLICTED\<rparr>\<rparr>"

definition InMempool :: "CWalletTx \<Rightarrow> bool" where
  "InMempool wtx = fInMempool wtx"

definition MarkDirty :: "CWalletTx \<Rightarrow> CWalletTx" where
  "MarkDirty wtx = wtx\<lparr>fCached := False\<rparr>"

text \<open>
  \<^verbatim>\<open>CWalletTx::GetDepthInMainChain\<close>. The chain is the function \<open>getBlockDepth\<close> of the
  locked chain interface: the depth of a block in the main chain, 0 for a block that is
  unknown or not in the main chain.
\<close>

definition GetDepthInMainChainINTERNAL :: "(uint256 \<Rightarrow> int) \<Rightarrow> CWalletTx \<Rightarrow> int" where
  "GetDepthInMainChainINTERNAL getBlockDepth wtx =
     getBlockDepth (hashBlock (m_confirm wtx)) * (if isConflicted wtx then - 1 else 1)"

definition GetDepthInMainChain :: "(uint256 \<Rightarrow> int) \<Rightarrow> CWalletTx \<Rightarrow> int" where
  "GetDepthInMainChain getBlockDepth wtx =
     (if isUnconfirmed wtx \<or> isAbandoned wtx then 0
      else GetDepthInMainChainINTERNAL getBlockDepth wtx)"

lemma takeWhile_sorted_filter:
  "sorted (map fst xs) \<Longrightarrow> \<forall>e \<in> set xs. k \<le> fst e \<Longrightarrow>
   takeWhile (\<lambda>e. \<not> k < fst e) xs = filter (\<lambda>e. fst e = k) xs"
proof (induction xs)
  case Nil
  then show ?case by simp
next
  case (Cons e xs)
  show ?case
  proof (cases "k < fst e")
    case True
    with Cons.prems have "\<forall>x \<in> set xs. k < fst x" by auto
    then have "filter (\<lambda>e. fst e = k) xs = []" by (auto simp: filter_empty_conv)
    with True show ?thesis by simp
  next
    case False
    with Cons.prems have "fst e = k" by auto
    with Cons show ?thesis by simp
  qed
qed

lemma equal_range_filter:
  "sorted (map fst xs) \<Longrightarrow> equal_range k xs = filter (\<lambda>e. fst e = k) xs"
proof (induction xs)
  case Nil
  then show ?case by (simp add: equal_range_def lower_bound_def)
next
  case (Cons e xs)
  show ?case
  proof (cases "fst e < k")
    case True
    with Cons show ?thesis by (simp add: equal_range_def lower_bound_def)
  next
    case False
    with Cons.prems have "\<forall>x \<in> set (e # xs). k \<le> fst x" by auto
    with Cons.prems have "takeWhile (\<lambda>e. \<not> k < fst e) (e # xs) = filter (\<lambda>e. fst e = k) (e # xs)"
      by (rule takeWhile_sorted_filter)
    with False show ?thesis by (simp add: equal_range_def lower_bound_def)
  qed
qed

lemma set_multimap_insert: "set (multimap_insert k v xs) = insert (k, v) (set xs)"
  by (induction xs) auto

lemma sorted_multimap_insert:
  "sorted (map fst xs) \<Longrightarrow> sorted (map fst (multimap_insert k v xs))"
  by (induction xs) (auto simp: not_less set_multimap_insert)

section \<open>The spend index: is an outpoint or a nullifier spent?\<close>

text \<open>
  \<^verbatim>\<open>IsSpent\<close>, \<^verbatim>\<open>IsSproutSpent\<close> and \<^verbatim>\<open>IsSaplingSpent\<close> run the same loop over the
  \<^verbatim>\<open>equal_range\<close> of their key in their multimap; \<open>range_spent\<close> is that loop, returning at
  the first entry that counts.
\<close>

fun range_spent :: "(uint256 \<Rightarrow> int) \<Rightarrow> (uint256 \<times> CWalletTx) list \<Rightarrow> ('k \<times> uint256) list \<Rightarrow> bool" where
  "range_spent getBlockDepth mw [] = False"
| "range_spent getBlockDepth mw (it # rest) =
     (case map_of mw (snd it) of
        Some wtx \<Rightarrow>
          (let depth = GetDepthInMainChain getBlockDepth wtx in
           if depth > 0 \<or> (depth = 0 \<and> \<not> isAbandoned wtx) then True
           else range_spent getBlockDepth mw rest)
      | None \<Rightarrow> range_spent getBlockDepth mw rest)"

definition IsSpent :: "(uint256 \<Rightarrow> int) \<Rightarrow> CWallet \<Rightarrow> uint256 \<Rightarrow> nat \<Rightarrow> bool" where
  "IsSpent getBlockDepth w h i =
     range_spent getBlockDepth (mapWallet w) (equal_range (h, i) (mapTxSpends w))"

definition IsSproutSpent :: "(uint256 \<Rightarrow> int) \<Rightarrow> CWallet \<Rightarrow> uint256 \<Rightarrow> bool" where
  "IsSproutSpent getBlockDepth w nf =
     range_spent getBlockDepth (mapWallet w) (equal_range nf (mapTxSproutNullifiers w))"

definition IsSaplingSpent :: "(uint256 \<Rightarrow> int) \<Rightarrow> CWallet \<Rightarrow> uint256 \<Rightarrow> bool" where
  "IsSaplingSpent getBlockDepth w nf =
     range_spent getBlockDepth (mapWallet w) (equal_range nf (mapTxSaplingNullifiers w))"

text \<open>
  \<open>counts_as_spend\<close> is the test the loop applies to a wallet transaction;
  \<open>claimed_spend\<close> is the test the specification describes (not conflicted, not abandoned,
  depth at least 0, and in the mempool when the depth is 0). \<open>registered_spender\<close> says
  that some transaction registered for the key in the index is in the wallet and passes
  the test.
\<close>

definition counts_as_spend :: "(uint256 \<Rightarrow> int) \<Rightarrow> CWalletTx \<Rightarrow> bool" where
  "counts_as_spend getBlockDepth wtx =
     (GetDepthInMainChain getBlockDepth wtx > 0 \<or>
      (GetDepthInMainChain getBlockDepth wtx = 0 \<and> \<not> isAbandoned wtx))"

definition claimed_spend :: "(uint256 \<Rightarrow> int) \<Rightarrow> CWalletTx \<Rightarrow> bool" where
  "claimed_spend getBlockDepth wtx =
     (\<not> isConflicted wtx \<and> \<not> isAbandoned wtx \<and> GetDepthInMainChain getBlockDepth wtx \<ge> 0 \<and>
      (GetDepthInMainChain getBlockDepth wtx = 0 \<longrightarrow> InMempool wtx))"

definition registered_spender :: "(uint256 \<times> CWalletTx) list \<Rightarrow> ('k \<times> uint256) list \<Rightarrow> 'k \<Rightarrow> (CWalletTx \<Rightarrow> bool) \<Rightarrow> bool" where
  "registered_spender mw idx k P =
     (\<exists>wtxid wtx. (k, wtxid) \<in> set idx \<and> map_of mw wtxid = Some wtx \<and> P wtx)"

lemma range_spent_iff:
  "range_spent c mw its \<longleftrightarrow>
     (\<exists>it \<in> set its. \<exists>wtx. map_of mw (snd it) = Some wtx \<and> counts_as_spend c wtx)"
  by (induction its) (auto simp: Let_def counts_as_spend_def split: option.splits)

lemma range_spent_registered:
  assumes "sorted (map fst idx)"
  shows "range_spent c mw (equal_range k idx) \<longleftrightarrow> registered_spender mw idx k (counts_as_spend c)"
  unfolding range_spent_iff equal_range_filter[OF assms] registered_spender_def
  by force

text \<open>
  Claim C5, as amended. An outpoint or nullifier is reported spent exactly when some wallet
  transaction registered for it in the spend index has depth greater than 0, or has
  depth 0 and is not abandoned. Mempool presence is never consulted.
\<close>

theorem is_spent_iff:
  assumes "sorted (map fst (mapTxSpends w))"
    and "sorted (map fst (mapTxSproutNullifiers w))"
    and "sorted (map fst (mapTxSaplingNullifiers w))"
  shows "(IsSpent c w h i \<longleftrightarrow> registered_spender (mapWallet w) (mapTxSpends w) (h, i) (counts_as_spend c))
    \<and> (IsSproutSpent c w nf \<longleftrightarrow> registered_spender (mapWallet w) (mapTxSproutNullifiers w) nf (counts_as_spend c))
    \<and> (IsSaplingSpent c w nf \<longleftrightarrow> registered_spender (mapWallet w) (mapTxSaplingNullifiers w) nf (counts_as_spend c))"
  unfolding IsSpent_def IsSproutSpent_def IsSaplingSpent_def
  using assms by (simp add: range_spent_registered)

text \<open>Concrete wallets for the closed instances below.\<close>

definition ex_tx :: "uint256 \<Rightarrow> COutPoint list \<Rightarrow> CTransaction" where
  "ex_tx h ins = \<lparr>GetHash = h, vin = ins, vJoinSplit = [], vShieldedSpend = [],
     vShieldedOutput = [], IsCoinBase = False, HasWitness = False\<rparr>"

definition ex_wtx :: "uint256 \<Rightarrow> COutPoint list \<Rightarrow> Status \<Rightarrow> uint256 \<Rightarrow> CWalletTx" where
  "ex_wtx h ins st blk = \<lparr>tx = ex_tx h ins,
     m_confirm = \<lparr>status = st, hashBlock = blk, nIndex = 0\<rparr>,
     mapSproutNoteData = [], mapSaplingNoteData = [], fFromMe = False, fInMempool = False,
     nOrderPos = 0, nTimeReceived = 0, fCached = True\<rparr>"

definition ex_wallet :: "(uint256 \<times> CWalletTx) list \<Rightarrow> (COutPoint \<times> uint256) list \<Rightarrow> CWallet" where
  "ex_wallet mw spends = \<lparr>mapWallet = mw, mapTxSpends = spends, mapTxSproutNullifiers = [],
     mapTxSaplingNullifiers = [], mapSproutNullifiersToNotes = [],
     mapSaplingNullifiersToNotes = [], setLockedCoins = [], wtxOrdered = [],
     nOrderPosNext = 0, db = []\<rparr>"

definition ex_spent_wallet :: CWallet where
  "ex_spent_wallet = ex_wallet [(2, ex_wtx 2 [(1, 0)] UNCONFIRMED 0)] [((1, 0), 2)]"

text \<open>
  An instance of C5: transaction 2 is unconfirmed, not in the mempool, and spends
  outpoint \<open>(1, 0)\<close>.
\<close>

theorem is_spent_iff_witness:
  "IsSpent (\<lambda>b. 0) ex_spent_wallet 1 0 \<and>
   registered_spender (mapWallet ex_spent_wallet) (mapTxSpends ex_spent_wallet) (1, 0)
     (counts_as_spend (\<lambda>b. 0))"
proof -
  have s: "sorted (map fst (mapTxSpends ex_spent_wallet))"
    "sorted (map fst (mapTxSproutNullifiers ex_spent_wallet))"
    "sorted (map fst (mapTxSaplingNullifiers ex_spent_wallet))"
    by (simp_all add: ex_spent_wallet_def ex_wallet_def)
  have r: "registered_spender (mapWallet ex_spent_wallet) (mapTxSpends ex_spent_wallet) (1, 0)
     (counts_as_spend (\<lambda>b. 0))"
    by (simp add: registered_spender_def ex_spent_wallet_def ex_wallet_def ex_wtx_def
        counts_as_spend_def GetDepthInMainChain_def isUnconfirmed_def isAbandoned_def)
  from is_spent_iff[OF s, of "\<lambda>b. 0" 1 0 0] r show ?thesis by blast
qed

text \<open>
  Claim C5 as stated fails there: the outpoint is reported spent although its only
  spender has depth 0 and is not in the mempool.
\<close>

theorem is_spent_mempool_counterexample:
  "IsSpent (\<lambda>b. 0) ex_spent_wallet 1 0 \<and>
   \<not> registered_spender (mapWallet ex_spent_wallet) (mapTxSpends ex_spent_wallet) (1, 0)
     (claimed_spend (\<lambda>b. 0))"
  by (simp add: IsSpent_def equal_range_def lower_bound_def registered_spender_def
      ex_spent_wallet_def ex_wallet_def ex_wtx_def claimed_spend_def InMempool_def
      GetDepthInMainChain_def isUnconfirmed_def isAbandoned_def isConflicted_def)

section \<open>Transaction construction: the change output\<close>

















section \<open>The witness cache\<close>

text \<open>
  \<^verbatim>\<open>GetSproutSpendDepth\<close> and \<^verbatim>\<open>GetSaplingSpendDepth\<close>: the depth of the first registered
  spender of a nullifier that is in the wallet with a depth of at least 0, else 0.
\<close>

fun range_spend_depth ::
  "(uint256 \<Rightarrow> int) \<Rightarrow> (uint256 \<times> CWalletTx) list \<Rightarrow> ('k \<times> uint256) list \<Rightarrow> int" where
  "range_spend_depth getBlockDepth mw [] = 0"
| "range_spend_depth getBlockDepth mw (it # rest) =
     (case map_of mw (snd it) of
        Some wtx \<Rightarrow>
          if GetDepthInMainChain getBlockDepth wtx \<ge> 0 then GetDepthInMainChain getBlockDepth wtx
          else range_spend_depth getBlockDepth mw rest
      | None \<Rightarrow> range_spend_depth getBlockDepth mw rest)"

definition GetSproutSpendDepth :: "(uint256 \<Rightarrow> int) \<Rightarrow> CWallet \<Rightarrow> uint256 \<Rightarrow> int" where
  "GetSproutSpendDepth getBlockDepth w nf =
     range_spend_depth getBlockDepth (mapWallet w) (equal_range nf (mapTxSproutNullifiers w))"

definition GetSaplingSpendDepth :: "(uint256 \<Rightarrow> int) \<Rightarrow> CWallet \<Rightarrow> uint256 \<Rightarrow> int" where
  "GetSaplingSpendDepth getBlockDepth w nf =
     range_spend_depth getBlockDepth (mapWallet w) (equal_range nf (mapTxSaplingNullifiers w))"

text \<open>
  The loops over the wallet mutate note records in place through \<^verbatim>\<open>auto* nd = &(item.second)\<close>.
  \<open>sprout_note\<close> and \<open>sapling_note\<close> read the record of a note of a wallet transaction;
  \<open>modify_sprout_note\<close> and \<open>modify_sapling_note\<close> write it.
\<close>

definition sprout_note :: "CWallet \<Rightarrow> uint256 \<Rightarrow> SproutOutPoint \<Rightarrow> NoteData option" where
  "sprout_note w txid op =
     (case map_of (mapWallet w) txid of None \<Rightarrow> None
      | Some wtx \<Rightarrow> map_of (mapSproutNoteData wtx) op)"

definition sapling_note :: "CWallet \<Rightarrow> uint256 \<Rightarrow> SaplingOutPoint \<Rightarrow> NoteData option" where
  "sapling_note w txid op =
     (case map_of (mapWallet w) txid of None \<Rightarrow> None
      | Some wtx \<Rightarrow> map_of (mapSaplingNoteData wtx) op)"

definition modify_sprout_note ::
  "uint256 \<Rightarrow> SproutOutPoint \<Rightarrow> (NoteData \<Rightarrow> NoteData) \<Rightarrow> CWallet \<Rightarrow> CWallet" where
  "modify_sprout_note txid op f w =
     w\<lparr>mapWallet := AList.map_entry txid
          (\<lambda>wtx. wtx\<lparr>mapSproutNoteData := AList.map_entry op f (mapSproutNoteData wtx)\<rparr>)
          (mapWallet w)\<rparr>"

definition modify_sapling_note ::
  "uint256 \<Rightarrow> SaplingOutPoint \<Rightarrow> (NoteData \<Rightarrow> NoteData) \<Rightarrow> CWallet \<Rightarrow> CWallet" where
  "modify_sapling_note txid op f w =
     w\<lparr>mapWallet := AList.map_entry txid
          (\<lambda>wtx. wtx\<lparr>mapSaplingNoteData := AList.map_entry op f (mapSaplingNoteData wtx)\<rparr>)
          (mapWallet w)\<rparr>"

definition sprout_keys :: "CWallet \<Rightarrow> uint256 \<Rightarrow> SproutOutPoint list" where
  "sprout_keys w txid =
     (case map_of (mapWallet w) txid of None \<Rightarrow> [] | Some wtx \<Rightarrow> map fst (mapSproutNoteData wtx))"

definition sapling_keys :: "CWallet \<Rightarrow> uint256 \<Rightarrow> SaplingOutPoint list" where
  "sapling_keys w txid =
     (case map_of (mapWallet w) txid of None \<Rightarrow> [] | Some wtx \<Rightarrow> map fst (mapSaplingNoteData wtx))"

subsection \<open>Rewinding: \<^verbatim>\<open>CWallet::DecrementNoteWitnesses\<close>\<close>

text \<open>
  The body of the loop for one note, given the spend depth of its nullifier.
  \<open>WITNESS_CACHE_SIZE\<close> is a constant declared outside wallet.cpp and is a parameter.
  \<^verbatim>\<open>pop_front\<close> removes the first element of the list.
\<close>

definition DecrementNote :: "nat \<Rightarrow> (uint256 \<Rightarrow> int) \<Rightarrow> int \<Rightarrow> NoteData \<Rightarrow> NoteData" where
  "DecrementNote WITNESS_CACHE_SIZE spendDepth nHeight nd =
     (case nullifier nd of
        None \<Rightarrow> nd
      | Some nf \<Rightarrow>
          if spendDepth nf \<le> int WITNESS_CACHE_SIZE then
            if witnessHeight nd \<le> nHeight then
              if length (witnesses nd) > 1 then
                nd\<lparr>witnesses := tl (witnesses nd), witnessHeight := nHeight - 1\<rparr>
              else nd
            else nd
          else nd)"

definition DecrementNoteWitnesses :: "(uint256 \<Rightarrow> int) \<Rightarrow> nat \<Rightarrow> int \<Rightarrow> CWallet \<Rightarrow> CWallet" where
  "DecrementNoteWitnesses getBlockDepth WITNESS_CACHE_SIZE nHeight w0 =
     fold (\<lambda>txid w.
        let w1 = fold (\<lambda>op w. modify_sprout_note txid op
                    (DecrementNote WITNESS_CACHE_SIZE (GetSproutSpendDepth getBlockDepth w) nHeight) w)
                  (sprout_keys w txid) w
        in fold (\<lambda>op w. modify_sapling_note txid op
                    (DecrementNote WITNESS_CACHE_SIZE (GetSaplingSpendDepth getBlockDepth w) nHeight) w)
                  (sapling_keys w1 txid) w1)
       (map fst (mapWallet w0)) w0"

text \<open>
  The loops change nothing that the spend depth of a nullifier or the iteration itself
  depends on: the spend index, the keys of the maps and the confirmation of every wallet
  transaction stay as they are.
\<close>

definition same_shape :: "CWallet \<Rightarrow> CWallet \<Rightarrow> bool" where
  "same_shape w w' =
     (mapTxSproutNullifiers w' = mapTxSproutNullifiers w \<and>
      mapTxSaplingNullifiers w' = mapTxSaplingNullifiers w \<and>
      map fst (mapWallet w') = map fst (mapWallet w) \<and>
      (\<forall>txid. map_option m_confirm (map_of (mapWallet w') txid) =
              map_option m_confirm (map_of (mapWallet w) txid)) \<and>
      (\<forall>txid. sprout_keys w' txid = sprout_keys w txid) \<and>
      (\<forall>txid. sapling_keys w' txid = sapling_keys w txid))"

lemma same_shape_refl: "same_shape w w"
  by (simp add: same_shape_def)

lemma same_shape_trans: "same_shape a b \<Longrightarrow> same_shape b c \<Longrightarrow> same_shape a c"
  by (simp add: same_shape_def)

lemma map_fst_map_entry: "map fst (AList.map_entry k f xs) = map fst xs"
  by (induction xs) auto

lemma same_shape_modify_sprout: "same_shape w (modify_sprout_note txid op f w)"
  by (auto simp: same_shape_def modify_sprout_note_def map_fst_map_entry map_of_map_entry
      sprout_keys_def sapling_keys_def split: option.splits)

lemma same_shape_modify_sapling: "same_shape w (modify_sapling_note txid op f w)"
  by (auto simp: same_shape_def modify_sapling_note_def map_fst_map_entry map_of_map_entry
      sprout_keys_def sapling_keys_def split: option.splits)

lemma GetDepthInMainChain_cong:
  "m_confirm a = m_confirm b \<Longrightarrow> GetDepthInMainChain c a = GetDepthInMainChain c b"
  by (simp add: GetDepthInMainChain_def GetDepthInMainChainINTERNAL_def isUnconfirmed_def
      isAbandoned_def isConflicted_def)

lemma range_spend_depth_cong:
  assumes "\<forall>txid. map_option m_confirm (map_of mw' txid) = map_option m_confirm (map_of mw txid)"
  shows "range_spend_depth c mw' its = range_spend_depth c mw its"
proof (induction its)
  case Nil
  show ?case by simp
next
  case (Cons it its)
  from assms have "map_option m_confirm (map_of mw' (snd it)) = map_option m_confirm (map_of mw (snd it))"
    by simp
  then consider "map_of mw' (snd it) = None" "map_of mw (snd it) = None"
    | a b where "map_of mw' (snd it) = Some a" "map_of mw (snd it) = Some b" "m_confirm a = m_confirm b"
    by (cases "map_of mw' (snd it)"; cases "map_of mw (snd it)") auto
  then show ?case
  proof cases
    case 1
    with Cons show ?thesis by simp
  next
    case 2
    from 2(3) have "GetDepthInMainChain c a = GetDepthInMainChain c b"
      by (rule GetDepthInMainChain_cong)
    with 2(1,2) Cons show ?thesis by simp
  qed
qed

lemma spend_depth_same_shape:
  assumes "same_shape w w'"
  shows "GetSproutSpendDepth c w' = GetSproutSpendDepth c w"
    and "GetSaplingSpendDepth c w' = GetSaplingSpendDepth c w"
  using assms
  by (auto simp: fun_eq_iff GetSproutSpendDepth_def GetSaplingSpendDepth_def same_shape_def
      intro!: range_spend_depth_cong)

lemma sprout_note_modify_sprout:
  "sprout_note (modify_sprout_note t op f w) t' op' =
     (if t' = t \<and> op' = op then map_option f (sprout_note w t' op') else sprout_note w t' op')"
  by (auto simp: sprout_note_def modify_sprout_note_def map_of_map_entry split: option.splits)

lemma sapling_note_modify_sprout:
  "sapling_note (modify_sprout_note t op f w) t' op' = sapling_note w t' op'"
  by (auto simp: sapling_note_def modify_sprout_note_def map_of_map_entry split: option.splits)

lemma sapling_note_modify_sapling:
  "sapling_note (modify_sapling_note t op f w) t' op' =
     (if t' = t \<and> op' = op then map_option f (sapling_note w t' op') else sapling_note w t' op')"
  by (auto simp: sapling_note_def modify_sapling_note_def map_of_map_entry split: option.splits)

lemma sprout_note_modify_sapling:
  "sprout_note (modify_sapling_note t op f w) t' op' = sprout_note w t' op'"
  by (auto simp: sprout_note_def modify_sapling_note_def map_of_map_entry split: option.splits)

text \<open>A loop over distinct keys whose body changes the value at its key only.\<close>

lemma fold_keys_effect:
  assumes step: "\<And>k s. R s \<Longrightarrow> R (upd k s) \<and>
        (\<forall>k'. get (upd k s) k' = (if k' = k then G (get s k') else get s k'))"
    and "R s" and "distinct ks"
  shows "R (fold upd ks s) \<and>
        (\<forall>k'. get (fold upd ks s) k' = (if k' \<in> set ks then G (get s k') else get s k'))"
  using assms(2,3)
proof (induction ks arbitrary: s)
  case Nil
  then show ?case by simp
next
  case (Cons k ks)
  from step[OF Cons.prems(1)] have R: "R (upd k s)"
    and g: "\<And>k'. get (upd k s) k' = (if k' = k then G (get s k') else get s k')" by auto
  from Cons.prems(2) have d: "distinct ks" "k \<notin> set ks" by auto
  from Cons.IH[OF R d(1)] show ?case using g d(2) by auto
qed

lemma sprout_note_not_key: "op \<notin> set (sprout_keys s t) \<Longrightarrow> sprout_note s t op = None"
  by (auto simp: sprout_keys_def sprout_note_def map_of_eq_None_iff split: option.splits)

lemma sapling_note_not_key: "op \<notin> set (sapling_keys s t) \<Longrightarrow> sapling_note s t op = None"
  by (auto simp: sapling_keys_def sapling_note_def map_of_eq_None_iff split: option.splits)

lemma note_not_in_wallet:
  assumes "t \<notin> set (map fst (mapWallet s))"
  shows "sprout_note s t op = None" and "sapling_note s t sop = None"
proof -
  from assms have "map_of (mapWallet s) t = None" by (simp add: map_of_eq_None_iff)
  then show "sprout_note s t op = None" and "sapling_note s t sop = None"
    by (simp_all add: sprout_note_def sapling_note_def)
qed

definition wallet_keys_distinct :: "CWallet \<Rightarrow> bool" where
  "wallet_keys_distinct w =
     (distinct (map fst (mapWallet w)) \<and>
      list_all (\<lambda>item. distinct (map fst (mapSproutNoteData (snd item))) \<and>
                       distinct (map fst (mapSaplingNoteData (snd item)))) (mapWallet w))"

lemma wallet_keys_distinct_notes:
  assumes "wallet_keys_distinct w"
  shows "distinct (sprout_keys w t)" and "distinct (sapling_keys w t)"
proof -
  have "distinct (sprout_keys w t) \<and> distinct (sapling_keys w t)"
  proof (cases "map_of (mapWallet w) t")
    case None
    then show ?thesis by (simp add: sprout_keys_def sapling_keys_def)
  next
    case (Some wtx)
    then have "(t, wtx) \<in> set (mapWallet w)" by (rule map_of_SomeD)
    with assms have "distinct (map fst (mapSproutNoteData wtx)) \<and> distinct (map fst (mapSaplingNoteData wtx))"
      by (auto simp: wallet_keys_distinct_def list_all_iff)
    with Some show ?thesis by (simp add: sprout_keys_def sapling_keys_def)
  qed
  then show "distinct (sprout_keys w t)" and "distinct (sapling_keys w t)" by simp_all
qed

lemma inner_sprout_effect:
  fixes c m h w0 t
  defines "gS \<equiv> DecrementNote m (GetSproutSpendDepth c w0) h"
  defines "body \<equiv> \<lambda>op w. modify_sprout_note t op (DecrementNote m (GetSproutSpendDepth c w) h) w"
  assumes shape: "same_shape w0 s" and dist: "distinct ops" and keys: "ops = sprout_keys s t"
  shows "same_shape w0 (fold body ops s) \<and>
     (\<forall>t' op'. sprout_note (fold body ops s) t' op' =
        (if t' = t then map_option gS (sprout_note s t' op') else sprout_note s t' op')) \<and>
     (\<forall>t' op'. sapling_note (fold body ops s) t' op' = sapling_note s t' op')"
proof -
  define R where "R s' \<longleftrightarrow> same_shape w0 s' \<and> (\<forall>t' op'. sapling_note s' t' op' = sapling_note s t' op')" for s'
  define upd where "upd k s' = body (snd k) s'" for k :: "uint256 \<times> SproutOutPoint" and s'
  define get where "get s' k = sprout_note s' (fst k) (snd k)" for s' and k :: "uint256 \<times> SproutOutPoint"
  define ks where "ks = map (Pair t) ops"
  have step: "R (upd k s') \<and> (\<forall>k'. get (upd k s') k' = (if k' = k then map_option gS (get s' k') else get s' k'))"
    if "R s'" and "fst k = t" for k s'
  proof -
    from that have sh: "same_shape w0 s'" by (simp add: R_def)
    then have d: "DecrementNote m (GetSproutSpendDepth c s') h = gS"
      by (simp add: gS_def spend_depth_same_shape)
    have u: "upd k s' = modify_sprout_note t (snd k) gS s'"
      by (simp add: upd_def body_def d)
    have "same_shape w0 (upd k s')"
      unfolding u using sh same_shape_modify_sprout by (rule same_shape_trans)
    moreover have "\<forall>t' op'. sapling_note (upd k s') t' op' = sapling_note s t' op'"
      unfolding u using that(1) by (simp add: R_def sapling_note_modify_sprout)
    moreover have "\<forall>k'. get (upd k s') k' = (if k' = k then map_option gS (get s' k') else get s' k')"
      unfolding u get_def using that(2) by (auto simp: sprout_note_modify_sprout prod_eq_iff)
    ultimately show ?thesis by (simp add: R_def)
  qed
  have main: "R (fold upd xs s') \<and>
        (\<forall>k'. get (fold upd xs s') k' = (if k' \<in> set xs then map_option gS (get s' k') else get s' k'))"
    if "R s'" "distinct xs" "\<forall>k \<in> set xs. fst k = t" for xs s'
    using that
  proof (induction xs arbitrary: s')
    case Nil
    then show ?case by simp
  next
    case (Cons k xs)
    from Cons.prems have kt: "fst k = t" by simp
    from step[OF Cons.prems(1) kt] have R': "R (upd k s')"
      and g: "\<And>k'. get (upd k s') k' = (if k' = k then map_option gS (get s' k') else get s' k')"
      by auto
    from Cons.prems have d: "distinct xs" "k \<notin> set xs" "\<forall>k \<in> set xs. fst k = t" by auto
    from Cons.IH[OF R' d(1) d(3)] show ?case using g d(2) by auto
  qed
  have R0: "R s" using shape by (simp add: R_def)
  have dks: "distinct ks" using dist by (simp add: ks_def distinct_map inj_on_def)
  have fks: "\<forall>k \<in> set ks. fst k = t" by (auto simp: ks_def)
  have "(\<lambda>x. upd (t, x)) = body" by (intro ext) (simp add: upd_def)
  then have f: "fold upd ks s = fold body ops s"
    by (simp add: ks_def fold_map comp_def)
  from main[OF R0 dks fks] have R1: "R (fold body ops s)"
    and g1: "\<And>k'. get (fold body ops s) k' = (if k' \<in> set ks then map_option gS (get s k') else get s k')"
    unfolding f by auto
  have "sprout_note (fold body ops s) t' op' =
        (if t' = t then map_option gS (sprout_note s t' op') else sprout_note s t' op')" for t' op'
  proof (cases "(t', op') \<in> set ks")
    case True
    with g1[of "(t', op')"] show ?thesis by (auto simp: get_def ks_def)
  next
    case False
    then have "t' \<noteq> t \<or> op' \<notin> set (sprout_keys s t)" by (auto simp: ks_def keys)
    then have "t' \<noteq> t \<or> sprout_note s t op' = None"
      by (auto simp: sprout_note_not_key)
    with False g1[of "(t', op')"] show ?thesis by (auto simp: get_def)
  qed
  with R1 show ?thesis by (simp add: R_def)
qed

lemma inner_sapling_effect:
  fixes c m h w0 t
  defines "gA \<equiv> DecrementNote m (GetSaplingSpendDepth c w0) h"
  defines "body \<equiv> \<lambda>op w. modify_sapling_note t op (DecrementNote m (GetSaplingSpendDepth c w) h) w"
  assumes shape: "same_shape w0 s" and dist: "distinct ops" and keys: "ops = sapling_keys s t"
  shows "same_shape w0 (fold body ops s) \<and>
     (\<forall>t' op'. sapling_note (fold body ops s) t' op' =
        (if t' = t then map_option gA (sapling_note s t' op') else sapling_note s t' op')) \<and>
     (\<forall>t' op'. sprout_note (fold body ops s) t' op' = sprout_note s t' op')"
proof -
  define R where "R s' \<longleftrightarrow> same_shape w0 s' \<and> (\<forall>t' op'. sprout_note s' t' op' = sprout_note s t' op')" for s'
  define upd where "upd k s' = body (snd k) s'" for k :: "uint256 \<times> SaplingOutPoint" and s'
  define get where "get s' k = sapling_note s' (fst k) (snd k)" for s' and k :: "uint256 \<times> SaplingOutPoint"
  define ks where "ks = map (Pair t) ops"
  have step: "R (upd k s') \<and> (\<forall>k'. get (upd k s') k' = (if k' = k then map_option gA (get s' k') else get s' k'))"
    if "R s'" and "fst k = t" for k s'
  proof -
    from that have sh: "same_shape w0 s'" by (simp add: R_def)
    then have d: "DecrementNote m (GetSaplingSpendDepth c s') h = gA"
      by (simp add: gA_def spend_depth_same_shape)
    have u: "upd k s' = modify_sapling_note t (snd k) gA s'"
      by (simp add: upd_def body_def d)
    have "same_shape w0 (upd k s')"
      unfolding u using sh same_shape_modify_sapling by (rule same_shape_trans)
    moreover have "\<forall>t' op'. sprout_note (upd k s') t' op' = sprout_note s t' op'"
      unfolding u using that(1) by (simp add: R_def sprout_note_modify_sapling)
    moreover have "\<forall>k'. get (upd k s') k' = (if k' = k then map_option gA (get s' k') else get s' k')"
      unfolding u get_def using that(2) by (auto simp: sapling_note_modify_sapling prod_eq_iff)
    ultimately show ?thesis by (simp add: R_def)
  qed
  have main: "R (fold upd xs s') \<and>
        (\<forall>k'. get (fold upd xs s') k' = (if k' \<in> set xs then map_option gA (get s' k') else get s' k'))"
    if "R s'" "distinct xs" "\<forall>k \<in> set xs. fst k = t" for xs s'
    using that
  proof (induction xs arbitrary: s')
    case Nil
    then show ?case by simp
  next
    case (Cons k xs)
    from Cons.prems have kt: "fst k = t" by simp
    from step[OF Cons.prems(1) kt] have R': "R (upd k s')"
      and g: "\<And>k'. get (upd k s') k' = (if k' = k then map_option gA (get s' k') else get s' k')"
      by auto
    from Cons.prems have d: "distinct xs" "k \<notin> set xs" "\<forall>k \<in> set xs. fst k = t" by auto
    from Cons.IH[OF R' d(1) d(3)] show ?case using g d(2) by auto
  qed
  have R0: "R s" using shape by (simp add: R_def)
  have dks: "distinct ks" using dist by (simp add: ks_def distinct_map inj_on_def)
  have fks: "\<forall>k \<in> set ks. fst k = t" by (auto simp: ks_def)
  have "(\<lambda>x. upd (t, x)) = body" by (intro ext) (simp add: upd_def)
  then have f: "fold upd ks s = fold body ops s"
    by (simp add: ks_def fold_map comp_def)
  from main[OF R0 dks fks] have R1: "R (fold body ops s)"
    and g1: "\<And>k'. get (fold body ops s) k' = (if k' \<in> set ks then map_option gA (get s k') else get s k')"
    unfolding f by auto
  have "sapling_note (fold body ops s) t' op' =
        (if t' = t then map_option gA (sapling_note s t' op') else sapling_note s t' op')" for t' op'
  proof (cases "(t', op') \<in> set ks")
    case True
    with g1[of "(t', op')"] show ?thesis by (auto simp: get_def ks_def)
  next
    case False
    then have "t' \<noteq> t \<or> op' \<notin> set (sapling_keys s t)" by (auto simp: ks_def keys)
    then have "t' \<noteq> t \<or> sapling_note s t op' = None"
      by (auto simp: sapling_note_not_key)
    with False g1[of "(t', op')"] show ?thesis by (auto simp: get_def)
  qed
  with R1 show ?thesis by (simp add: R_def)
qed

lemma DecrementNoteWitnesses_notes:
  fixes c m h w0
  defines "gS \<equiv> DecrementNote m (GetSproutSpendDepth c w0) h"
  defines "gA \<equiv> DecrementNote m (GetSaplingSpendDepth c w0) h"
  assumes dist: "wallet_keys_distinct w0"
  shows "sprout_note (DecrementNoteWitnesses c m h w0) t op = map_option gS (sprout_note w0 t op)"
    and "sapling_note (DecrementNoteWitnesses c m h w0) t sop = map_option gA (sapling_note w0 t sop)"
proof -
  define bodyS where "bodyS t = (\<lambda>op w. modify_sprout_note t op (DecrementNote m (GetSproutSpendDepth c w) h) w)" for t
  define bodyA where "bodyA t = (\<lambda>op w. modify_sapling_note t op (DecrementNote m (GetSaplingSpendDepth c w) h) w)" for t
  define upd where "upd t w = (let w1 = fold (bodyS t) (sprout_keys w t) w in fold (bodyA t) (sapling_keys w1 t) w1)" for t w
  define get where "get w t = (\<lambda>op. sprout_note w t op, \<lambda>sop. sapling_note w t sop)" for w t
  define G where "G = (\<lambda>(f :: SproutOutPoint \<Rightarrow> NoteData option, g :: SaplingOutPoint \<Rightarrow> NoteData option).
      (\<lambda>op. map_option gS (f op), \<lambda>sop. map_option gA (g sop)))"
  have "upd = (\<lambda>txid w.
        let w1 = fold (\<lambda>op w. modify_sprout_note txid op
                    (DecrementNote m (GetSproutSpendDepth c w) h) w) (sprout_keys w txid) w
        in fold (\<lambda>op w. modify_sapling_note txid op
                    (DecrementNote m (GetSaplingSpendDepth c w) h) w) (sapling_keys w1 txid) w1)"
    by (intro ext) (simp add: upd_def bodyS_def bodyA_def)
  then have D: "DecrementNoteWitnesses c m h w0 = fold upd (map fst (mapWallet w0)) w0"
    by (simp add: DecrementNoteWitnesses_def)
  have step: "same_shape w0 (upd k s) \<and> (\<forall>k'. get (upd k s) k' = (if k' = k then G (get s k') else get s k'))"
    if sh: "same_shape w0 s" for k s
  proof -
    define s1 where "s1 = fold (bodyS k) (sprout_keys s k) s"
    define s2 where "s2 = fold (bodyA k) (sapling_keys s1 k) s1"
    have u: "upd k s = s2" by (simp add: upd_def s1_def s2_def Let_def)
    from sh have "sprout_keys s k = sprout_keys w0 k" by (simp add: same_shape_def)
    with dist have d1: "distinct (sprout_keys s k)" by (simp add: wallet_keys_distinct_notes)
    from inner_sprout_effect[where c=c and m=m and h=h and t=k, OF sh d1 refl]
    have sh1: "same_shape w0 s1"
      and n1: "\<And>t' op'. sprout_note s1 t' op' =
          (if t' = k then map_option gS (sprout_note s t' op') else sprout_note s t' op')"
      and a1: "\<And>t' op'. sapling_note s1 t' op' = sapling_note s t' op'"
      unfolding s1_def bodyS_def gS_def by auto
    from sh1 have "sapling_keys s1 k = sapling_keys w0 k" by (simp add: same_shape_def)
    with dist have d2: "distinct (sapling_keys s1 k)" by (simp add: wallet_keys_distinct_notes)
    from inner_sapling_effect[where c=c and m=m and h=h and t=k, OF sh1 d2 refl]
    have sh2: "same_shape w0 s2"
      and a2: "\<And>t' op'. sapling_note s2 t' op' =
          (if t' = k then map_option gA (sapling_note s1 t' op') else sapling_note s1 t' op')"
      and n2: "\<And>t' op'. sprout_note s2 t' op' = sprout_note s1 t' op'"
      unfolding s2_def bodyA_def gA_def by auto
    show ?thesis
      unfolding u using sh2 by (auto simp: get_def G_def n1 n2 a1 a2)
  qed
  from dist have dk: "distinct (map fst (mapWallet w0))" by (simp add: wallet_keys_distinct_def)
  from fold_keys_effect[where R="same_shape w0" and upd=upd and get=get and G=G, OF step same_shape_refl dk]
  have g: "get (DecrementNoteWitnesses c m h w0) t =
      (if t \<in> set (map fst (mapWallet w0)) then G (get w0 t) else get w0 t)"
    unfolding D by simp
  have "get (DecrementNoteWitnesses c m h w0) t = G (get w0 t)"
  proof (cases "t \<in> set (map fst (mapWallet w0))")
    case True
    with g show ?thesis by simp
  next
    case False
    then have "get w0 t = (\<lambda>op. None, \<lambda>sop. None)"
      by (simp add: get_def note_not_in_wallet)
    with False g show ?thesis by (simp add: G_def)
  qed
  then show "sprout_note (DecrementNoteWitnesses c m h w0) t op = map_option gS (sprout_note w0 t op)"
    and "sapling_note (DecrementNoteWitnesses c m h w0) t sop = map_option gA (sapling_note w0 t sop)"
    by (simp_all add: get_def G_def fun_eq_iff)
qed

text \<open>
  What a rewind does to one note. A note is rewound when it has a cached nullifier whose
  spend depth is within the cache size, its witness height is not above the height of the
  disconnected block, and it holds more than one witness; rewinding removes the front
  witness, the one the last extension added.
\<close>

definition rewindable :: "nat \<Rightarrow> (uint256 \<Rightarrow> int) \<Rightarrow> int \<Rightarrow> NoteData \<Rightarrow> bool" where
  "rewindable WITNESS_CACHE_SIZE spendDepth nHeight nd =
     ((case nullifier nd of None \<Rightarrow> False | Some nf \<Rightarrow> spendDepth nf \<le> int WITNESS_CACHE_SIZE) \<and>
      witnessHeight nd \<le> nHeight \<and> length (witnesses nd) > 1)"

definition rewound :: "int \<Rightarrow> NoteData \<Rightarrow> NoteData" where
  "rewound nHeight nd = nd\<lparr>witnesses := tl (witnesses nd), witnessHeight := nHeight - 1\<rparr>"

definition rewind_result :: "nat \<Rightarrow> (uint256 \<Rightarrow> int) \<Rightarrow> int \<Rightarrow> NoteData \<Rightarrow> NoteData" where
  "rewind_result WITNESS_CACHE_SIZE spendDepth nHeight nd =
     (if rewindable WITNESS_CACHE_SIZE spendDepth nHeight nd then rewound nHeight nd else nd)"

text \<open>The rewind of the specification: the back witness, the oldest, goes whenever one stays.\<close>

definition claimed_rewind :: "int \<Rightarrow> NoteData \<Rightarrow> NoteData" where
  "claimed_rewind nHeight nd =
     (if length (witnesses nd) > 1
      then nd\<lparr>witnesses := butlast (witnesses nd), witnessHeight := nHeight - 1\<rparr> else nd)"

lemma DecrementNote_rewind_result: "DecrementNote m d h nd = rewind_result m d h nd"
  by (simp add: DecrementNote_def rewind_result_def rewindable_def rewound_def split: option.splits)

lemma rewind_result_keeps_one: "witnesses nd \<noteq> [] \<Longrightarrow> witnesses (rewind_result m d h nd) \<noteq> []"
  by (cases "witnesses nd"; cases "tl (witnesses nd)")
     (auto simp: rewind_result_def rewindable_def rewound_def)

text \<open>
  Claim C3, as amended. Rewinding at a block of height \<open>nHeight\<close> leaves every note in
  place and changes it only if it has a cached nullifier whose spend depth is at most
  \<open>WITNESS_CACHE_SIZE\<close>, its witness height is at most \<open>nHeight\<close> and it holds more than
  one witness: then the front witness (the newest) is removed and the witness height
  becomes \<open>nHeight - 1\<close>. The last remaining witness of a note is never removed. The
  hypothesis says that the keys of each map are distinct, as they are in a \<^verbatim>\<open>std::map\<close>.
\<close>

theorem rewind_note_effect:
  assumes "wallet_keys_distinct w"
  shows "sprout_note (DecrementNoteWitnesses getBlockDepth WITNESS_CACHE_SIZE nHeight w) txid op =
           map_option (rewind_result WITNESS_CACHE_SIZE (GetSproutSpendDepth getBlockDepth w) nHeight)
             (sprout_note w txid op) \<and>
         sapling_note (DecrementNoteWitnesses getBlockDepth WITNESS_CACHE_SIZE nHeight w) txid sop =
           map_option (rewind_result WITNESS_CACHE_SIZE (GetSaplingSpendDepth getBlockDepth w) nHeight)
             (sapling_note w txid sop) \<and>
         (witnesses nd \<noteq> [] \<longrightarrow> witnesses (rewind_result WITNESS_CACHE_SIZE spendDepth nHeight nd) \<noteq> [])"
  using DecrementNoteWitnesses_notes[OF assms] rewind_result_keeps_one
  by (simp add: DecrementNote_rewind_result[abs_def])

subsection \<open>Extending: the loop body of \<^verbatim>\<open>CWallet::BuildWitnessCache\<close>\<close>

record CBlock =
  vtx :: "CTransaction list"

text \<open>\<^verbatim>\<open>while (nd->witnesses.size() > WITNESS_CACHE_SIZE) nd->witnesses.pop_back();\<close>\<close>

function pop_back_while :: "nat \<Rightarrow> 'a list \<Rightarrow> 'a list" where
  "pop_back_while m xs = (if length xs > m then pop_back_while m (butlast xs) else xs)"
  by pat_completeness auto
termination
  by (relation "measure (\<lambda>(m, xs). length xs)") auto

text \<open>
  The commitments of a block in the order the loops visit them: for Sprout every commitment
  of every JoinSplit of every transaction, for Sapling the commitment of every shielded
  output of every transaction.
\<close>

definition sprout_commitments :: "CBlock \<Rightarrow> uint256 list" where
  "sprout_commitments block = concat (map (\<lambda>ptx. concat (map commitments (vJoinSplit ptx))) (vtx block))"

definition sapling_commitments :: "CBlock \<Rightarrow> uint256 list" where
  "sapling_commitments block = concat (map vShieldedOutput (vtx block))"

text \<open>
  \<^verbatim>\<open>nd->witnesses.front().append(cm)\<close> for each commitment in turn. Calling \<^verbatim>\<open>front()\<close> on an
  empty list is undefined behaviour.
\<close>

fun append_to_front :: "uint256 list \<Rightarrow> IncrementalWitness list \<Rightarrow> error + IncrementalWitness list" where
  "append_to_front [] ws = Inr ws"
| "append_to_front (cm # cms) [] = Inl UndefinedBehaviour"
| "append_to_front (cm # cms) (front # ws) = append_to_front cms (witness_append front cm # ws)"

text \<open>The body of the \<^verbatim>\<open>if\<close> for one note that is to be extended by a block.\<close>

definition IncrementNote :: "nat \<Rightarrow> uint256 list \<Rightarrow> int \<Rightarrow> NoteData \<Rightarrow> error + NoteData" where
  "IncrementNote WITNESS_CACHE_SIZE cms nHeight nd =
     (case witnesses nd of
        [] \<Rightarrow> Inl UndefinedBehaviour
      | front # ws \<Rightarrow>
          (case append_to_front cms (pop_back_while WITNESS_CACHE_SIZE (front # front # ws)) of
             Inl e \<Rightarrow> Inl e
           | Inr ws' \<Rightarrow> Inr (nd\<lparr>witnesses := ws', witnessHeight := nHeight\<rparr>)))"

text \<open>A loop whose body may fail: the first failure ends it.\<close>

fun for_each :: "('a \<Rightarrow> 's \<Rightarrow> error + 's) \<Rightarrow> 'a list \<Rightarrow> 's \<Rightarrow> error + 's" where
  "for_each body [] s = Inr s"
| "for_each body (x # xs) s = (case body x s of Inl e \<Rightarrow> Inl e | Inr s' \<Rightarrow> for_each body xs s')"

definition extend_sprout_note ::
  "(uint256 \<Rightarrow> int) \<Rightarrow> nat \<Rightarrow> int \<Rightarrow> CBlock \<Rightarrow> uint256 \<Rightarrow> SproutOutPoint \<Rightarrow> CWallet \<Rightarrow> error + CWallet" where
  "extend_sprout_note getBlockDepth WITNESS_CACHE_SIZE nHeight block txid op w =
     (case sprout_note w txid op of
        None \<Rightarrow> Inr w
      | Some nd \<Rightarrow>
          (case nullifier nd of
             None \<Rightarrow> Inr w
           | Some nf \<Rightarrow>
               if witnessHeight nd = nHeight - 1 \<and>
                  GetSproutSpendDepth getBlockDepth w nf \<le> int WITNESS_CACHE_SIZE
               then (case IncrementNote WITNESS_CACHE_SIZE (sprout_commitments block) nHeight nd of
                       Inl e \<Rightarrow> Inl e
                     | Inr nd' \<Rightarrow> Inr (modify_sprout_note txid op (\<lambda>_. nd') w))
               else Inr w))"

definition extend_sapling_note ::
  "(uint256 \<Rightarrow> int) \<Rightarrow> nat \<Rightarrow> int \<Rightarrow> CBlock \<Rightarrow> uint256 \<Rightarrow> SaplingOutPoint \<Rightarrow> CWallet \<Rightarrow> error + CWallet" where
  "extend_sapling_note getBlockDepth WITNESS_CACHE_SIZE nHeight block txid op w =
     (case sapling_note w txid op of
        None \<Rightarrow> Inr w
      | Some nd \<Rightarrow>
          (case nullifier nd of
             None \<Rightarrow> Inr w
           | Some nf \<Rightarrow>
               if witnessHeight nd = nHeight - 1 \<and>
                  GetSaplingSpendDepth getBlockDepth w nf \<le> int WITNESS_CACHE_SIZE
               then (case IncrementNote WITNESS_CACHE_SIZE (sapling_commitments block) nHeight nd of
                       Inl e \<Rightarrow> Inl e
                     | Inr nd' \<Rightarrow> Inr (modify_sapling_note txid op (\<lambda>_. nd') w))
               else Inr w))"

text \<open>
  One pass of the \<^verbatim>\<open>while (pblockindex)\<close> loop of \<^verbatim>\<open>BuildWitnessCache\<close>: the block at height
  \<open>nHeight\<close> is folded into the witnesses of every note of every confirmed wallet
  transaction.
\<close>

definition extend_wtx ::
  "(uint256 \<Rightarrow> int) \<Rightarrow> nat \<Rightarrow> int \<Rightarrow> CBlock \<Rightarrow> uint256 \<Rightarrow> CWallet \<Rightarrow> error + CWallet" where
  "extend_wtx getBlockDepth WITNESS_CACHE_SIZE nHeight block txid w =
     (case map_of (mapWallet w) txid of
        None \<Rightarrow> Inr w
      | Some wtx \<Rightarrow>
          if mapSproutNoteData wtx = [] \<and> mapSaplingNoteData wtx = [] then Inr w
          else if GetDepthInMainChain getBlockDepth wtx > 0 then
            (case for_each (extend_sprout_note getBlockDepth WITNESS_CACHE_SIZE nHeight block txid)
                    (sprout_keys w txid) w of
               Inl e \<Rightarrow> Inl e
             | Inr w1 \<Rightarrow>
                 for_each (extend_sapling_note getBlockDepth WITNESS_CACHE_SIZE nHeight block txid)
                   (sapling_keys w1 txid) w1)
          else Inr w)"

definition extend_block :: "(uint256 \<Rightarrow> int) \<Rightarrow> nat \<Rightarrow> int \<Rightarrow> CBlock \<Rightarrow> CWallet \<Rightarrow> error + CWallet" where
  "extend_block getBlockDepth WITNESS_CACHE_SIZE nHeight block w =
     for_each (extend_wtx getBlockDepth WITNESS_CACHE_SIZE nHeight block) (map fst (mapWallet w)) w"

subsection \<open>Verifying the cache: \<^verbatim>\<open>CWallet::VerifyAndSetInitialWitness\<close>\<close>

text \<open>
  What the wallet reads from the node. A \<^verbatim>\<open>CBlockIndex*\<close> is the block index it points
  to (\<open>None\<close> for \<^verbatim>\<open>nullptr\<close>); a block index is identified by its hash, so equality of
  pointers is equality of block indices. The active chain (\<^verbatim>\<open>::ChainActive()[h]\<close> and
  \<^verbatim>\<open>::ChainActive().Next(p)\<close>), the block index, the block files, the anchors of the
  coins view, the root of a witness and the derivation of nullifiers from the wallet's
  keys are defined outside wallet.cpp and are parameters. \<open>GetNoteDecryptor\<close> says
  whether the wallet holds the decryptor of a Sprout note, \<open>HaveSaplingFullViewingKey\<close>
  whether \<^verbatim>\<open>mapSaplingFullViewingKeys\<close> holds the key of a Sapling note;
  \<open>GetSaplingNoteNullifier\<close> stands for decrypting the output and computing the
  nullifier at the position of the front witness.
\<close>

datatype CBlockIndex = CBlockIndex (phashBlock: uint256) (nHeight: int)
  (hashSproutRoot: uint256) (hashSaplingRoot: uint256) (pprev: "CBlockIndex option")

record NodeView =
  ChainActive :: "int \<Rightarrow> CBlockIndex option"
  Next :: "CBlockIndex \<Rightarrow> CBlockIndex option"
  LookupBlockIndex :: "uint256 \<Rightarrow> CBlockIndex option"
  ReadBlockFromDisk :: "CBlockIndex \<Rightarrow> CBlock"
  GetSproutAnchorAt :: "uint256 \<Rightarrow> uint256 list"
  GetSaplingAnchorAt :: "uint256 \<Rightarrow> uint256 list"
  root :: "IncrementalWitness \<Rightarrow> uint256"
  GetNoteDecryptor :: "CWalletTx \<Rightarrow> SproutOutPoint \<Rightarrow> bool"
  GetSproutNoteNullifier :: "CWalletTx \<Rightarrow> SproutOutPoint \<Rightarrow> uint256 option"
  HaveSaplingFullViewingKey :: "CWalletTx \<Rightarrow> SaplingOutPoint \<Rightarrow> bool"
  GetSaplingNoteNullifier :: "CWalletTx \<Rightarrow> SaplingOutPoint \<Rightarrow> IncrementalWitness \<Rightarrow> uint256 option"

definition ClearSingleNoteWitnessCache :: "NoteData \<Rightarrow> NoteData" where
  "ClearSingleNoteWitnessCache nd =
     nd\<lparr>witnesses := [], witnessHeight := - 1, witnessRootValidated := False\<rparr>"

definition SproutWitnessMinimumHeight ::
  "(uint256 \<Rightarrow> int) \<Rightarrow> nat \<Rightarrow> CWallet \<Rightarrow> uint256 \<Rightarrow> int \<Rightarrow> int \<Rightarrow> int" where
  "SproutWitnessMinimumHeight getBlockDepth WITNESS_CACHE_SIZE w nf nWitnessHeight nMinimumHeight =
     (if GetSproutSpendDepth getBlockDepth w nf \<le> int WITNESS_CACHE_SIZE
      then min nWitnessHeight nMinimumHeight else nMinimumHeight)"

definition SaplingWitnessMinimumHeight ::
  "(uint256 \<Rightarrow> int) \<Rightarrow> nat \<Rightarrow> CWallet \<Rightarrow> uint256 \<Rightarrow> int \<Rightarrow> int \<Rightarrow> int" where
  "SaplingWitnessMinimumHeight getBlockDepth WITNESS_CACHE_SIZE w nf nWitnessHeight nMinimumHeight =
     (if GetSaplingSpendDepth getBlockDepth w nf \<le> int WITNESS_CACHE_SIZE
      then min nWitnessHeight nMinimumHeight else nMinimumHeight)"

text \<open>
  \<^verbatim>\<open>CWallet::UpdateSproutNullifierNoteMapWithTx\<close>, called on an entry of \<open>mapWallet\<close>. The
  loop body works on a copy \<^verbatim>\<open>nd\<close> of the note; without witnesses it resets the
  nullifier of the copy only. Indexing \<^verbatim>\<open>vJoinSplit\<close> beyond its end is undefined
  behaviour.
\<close>

definition update_sprout_item :: "NodeView \<Rightarrow> uint256 \<Rightarrow> SproutOutPoint \<Rightarrow> CWallet \<Rightarrow> error + CWallet" where
  "update_sprout_item env txid op w =
     (case map_of (mapWallet w) txid of
        None \<Rightarrow> Inr w
      | Some wtx \<Rightarrow>
          (case map_of (mapSproutNoteData wtx) op of
             None \<Rightarrow> Inr w
           | Some nd \<Rightarrow>
               if witnesses nd = [] then
                 (case nullifier nd of
                    None \<Rightarrow> Inr w
                  | Some nf \<Rightarrow>
                      Inr (w\<lparr>mapSproutNullifiersToNotes := AList.delete nf (mapSproutNullifiersToNotes w)\<rparr>))
               else if GetNoteDecryptor env wtx op then
                 (case op of SproutOutPoint hash js n \<Rightarrow>
                    if js \<ge> length (vJoinSplit (tx wtx)) then Inl UndefinedBehaviour
                    else
                      (case GetSproutNoteNullifier env wtx op of
                         None \<Rightarrow> Inl AssertionFailed
                       | Some nf \<Rightarrow>
                           Inr (modify_sprout_note txid op (\<lambda>nd. nd\<lparr>nullifier := Some nf\<rparr>)
                                 (w\<lparr>mapSproutNullifiersToNotes :=
                                      map_assign nf op (mapSproutNullifiersToNotes w)\<rparr>))))
               else Inr w))"

definition UpdateSproutNullifierNoteMapWithTx :: "NodeView \<Rightarrow> uint256 \<Rightarrow> CWallet \<Rightarrow> error + CWallet" where
  "UpdateSproutNullifierNoteMapWithTx env txid w =
     for_each (update_sprout_item env txid) (sprout_keys w txid) w"

text \<open>
  \<^verbatim>\<open>CWallet::UpdateSaplingNullifierNoteMapWithTx\<close>. \<^verbatim>\<open>mapSaplingFullViewingKeys.at\<close>
  throws for a missing key.
\<close>

definition update_sapling_item :: "NodeView \<Rightarrow> uint256 \<Rightarrow> SaplingOutPoint \<Rightarrow> CWallet \<Rightarrow> error + CWallet" where
  "update_sapling_item env txid op w =
     (case map_of (mapWallet w) txid of
        None \<Rightarrow> Inr w
      | Some wtx \<Rightarrow>
          (case map_of (mapSaplingNoteData wtx) op of
             None \<Rightarrow> Inr w
           | Some nd \<Rightarrow>
               (case witnesses nd of
                  [] \<Rightarrow>
                    Inr (modify_sapling_note txid op (\<lambda>nd. nd\<lparr>nullifier := None\<rparr>)
                          (case nullifier nd of
                             None \<Rightarrow> w
                           | Some nf \<Rightarrow>
                               w\<lparr>mapSaplingNullifiersToNotes :=
                                    AList.delete nf (mapSaplingNullifiersToNotes w)\<rparr>))
                | front # rest \<Rightarrow>
                    if \<not> HaveSaplingFullViewingKey env wtx op then Inl OutOfRange
                    else
                      (case op of SaplingOutPoint hash n \<Rightarrow>
                         if n \<ge> length (vShieldedOutput (tx wtx)) then Inl UndefinedBehaviour
                         else
                           (case GetSaplingNoteNullifier env wtx op front of
                              None \<Rightarrow> Inl AssertionFailed
                            | Some nf \<Rightarrow>
                                Inr (modify_sapling_note txid op (\<lambda>nd. nd\<lparr>nullifier := Some nf\<rparr>)
                                      (w\<lparr>mapSaplingNullifiersToNotes :=
                                           map_assign nf op (mapSaplingNullifiersToNotes w)\<rparr>)))))))"

definition UpdateSaplingNullifierNoteMapWithTx :: "NodeView \<Rightarrow> uint256 \<Rightarrow> CWallet \<Rightarrow> error + CWallet" where
  "UpdateSaplingNullifierNoteMapWithTx env txid w =
     for_each (update_sapling_item env txid) (sapling_keys w txid) w"

text \<open>
  The first part of the loop body for one note: \<open>Skip\<close> and \<open>Keep\<close> are the
  \<^verbatim>\<open>continue\<close> statements without and with an update of \<^verbatim>\<open>nMinimumHeight\<close>,
  \<open>Rebuild\<close> is falling through to ``clear witness cache for all other scenarios''.
  \<open>hashRoot\<close> is \<open>hashSproutRoot\<close> or \<open>hashSaplingRoot\<close>.
\<close>

datatype verdict = Skip | Keep | Rebuild

definition check_witness ::
  "NodeView \<Rightarrow> (CBlockIndex \<Rightarrow> uint256) \<Rightarrow> CBlockIndex \<Rightarrow> bool \<Rightarrow> NoteData \<Rightarrow> error + verdict \<times> NoteData" where
  "check_witness env hashRoot pindex witnessOnly nd =
     (case witnesses nd of
        [] \<Rightarrow> Inr (Rebuild, nd)
      | front # rest \<Rightarrow>
          if witnessHeight nd > 0 then
            if witnessRootValidated nd \<and> witnessOnly then Inr (Skip, nd)
            else if witnessRootValidated nd then Inr (Keep, nd)
            else if witnessHeight nd > nHeight pindex - 1 then Inr (Keep, nd)
            else
              (case ChainActive env (witnessHeight nd) of
                 None \<Rightarrow> Inl UndefinedBehaviour
               | Some pblockindex \<Rightarrow>
                   if root env front = hashRoot pblockindex
                   then Inr (Keep, nd\<lparr>witnessRootValidated := True\<rparr>)
                   else Inr (Rebuild, nd))
          else Inr (Rebuild, nd))"

text \<open>
  Rebuilding the witness of a note from the block of its transaction. \<open>witness_step\<close>
  is the body of the loop over the commitments of the block, on the tree and the (cleared)
  witness list; \<open>ours\<close> says that the commitment is the one of the note
  (\<^verbatim>\<open>hash == wtxHash\<close> and \<^verbatim>\<open>op == outPoint\<close>). A commitment tree is the list of its
  commitments and \<^verbatim>\<open>tree.witness()\<close> the witness with nothing appended yet.
\<close>

fun witness_step ::
  "bool \<times> uint256 \<Rightarrow> uint256 list \<times> IncrementalWitness list \<Rightarrow> uint256 list \<times> IncrementalWitness list" where
  "witness_step (ours, cm) (tree, []) =
     (tree @ [cm], if ours then [IncrementalWitness (tree @ [cm]) []] else [])"
| "witness_step (ours, cm) (tree, front # rest) = (tree, witness_append front cm # rest)"

definition sprout_outputs :: "CBlock \<Rightarrow> (SproutOutPoint \<times> uint256) list" where
  "sprout_outputs block =
     concat (map (\<lambda>ptx.
       concat (map (\<lambda>(i, jsdesc).
         map (\<lambda>(j, cm). (SproutOutPoint (GetHash ptx) i j, cm)) (enumerate 0 (commitments jsdesc)))
         (enumerate 0 (vJoinSplit ptx))))
       (vtx block))"

definition sapling_outputs :: "CBlock \<Rightarrow> (SaplingOutPoint \<times> uint256) list" where
  "sapling_outputs block =
     concat (map (\<lambda>ptx.
       map (\<lambda>(i, cm). (SaplingOutPoint (GetHash ptx) i, cm)) (enumerate 0 (vShieldedOutput ptx)))
       (vtx block))"

definition initial_witness ::
  "uint256 \<Rightarrow> 'op \<Rightarrow> ('op \<Rightarrow> uint256) \<Rightarrow> ('op \<times> uint256) list \<Rightarrow> uint256 list \<Rightarrow> IncrementalWitness list" where
  "initial_witness wtxHash op hash_of outputs tree =
     snd (fold witness_step
            (map (\<lambda>(outPoint, cm). (hash_of outPoint = wtxHash \<and> op = outPoint, cm)) outputs)
            (tree, []))"

text \<open>
  The loop body for one Sprout note and for one Sapling note. The state is the wallet
  and \<^verbatim>\<open>nMinimumHeight\<close>. Dereferencing a null block index, or an empty
  \<^verbatim>\<open>item.second.nullifier\<close>, is undefined behaviour.
\<close>

definition verify_sprout_note ::
  "NodeView \<Rightarrow> (uint256 \<Rightarrow> int) \<Rightarrow> nat \<Rightarrow> CBlockIndex \<Rightarrow> bool \<Rightarrow> uint256 \<Rightarrow> uint256 \<Rightarrow> int \<Rightarrow>
   SproutOutPoint \<Rightarrow> CWallet \<times> int \<Rightarrow> error + CWallet \<times> int" where
  "verify_sprout_note env getBlockDepth WITNESS_CACHE_SIZE pindex witnessOnly txid wtxHash wtxHeight op s =
     (case s of (w, nMinimumHeight) \<Rightarrow>
      (case sprout_note w txid op of
        None \<Rightarrow> Inr (w, nMinimumHeight)
      | Some nd0 \<Rightarrow>
          (case check_witness env hashSproutRoot pindex witnessOnly
                  (if nullifier nd0 = None then ClearSingleNoteWitnessCache nd0 else nd0) of
             Inl e \<Rightarrow> Inl e
           | Inr (Skip, nd) \<Rightarrow> Inr (modify_sprout_note txid op (\<lambda>_. nd) w, nMinimumHeight)
           | Inr (Keep, nd) \<Rightarrow>
               (case nullifier nd of
                  None \<Rightarrow> Inl UndefinedBehaviour
                | Some nf \<Rightarrow>
                    Inr (modify_sprout_note txid op (\<lambda>_. nd) w,
                         SproutWitnessMinimumHeight getBlockDepth WITNESS_CACHE_SIZE
                           (modify_sprout_note txid op (\<lambda>_. nd) w) nf
                           (witnessHeight nd) nMinimumHeight))
           | Inr (Rebuild, nd) \<Rightarrow>
               (case ChainActive env wtxHeight of
                  None \<Rightarrow> Inl UndefinedBehaviour
                | Some pblockindex \<Rightarrow>
                    (case pprev pblockindex of
                       None \<Rightarrow> Inl UndefinedBehaviour
                     | Some prev \<Rightarrow>
                         (case UpdateSproutNullifierNoteMapWithTx env txid
                                 (modify_sprout_note txid op
                                    (\<lambda>_. (ClearSingleNoteWitnessCache nd)
                                       \<lparr>witnesses := initial_witness wtxHash op sprout_hash
                                          (sprout_outputs (ReadBlockFromDisk env pblockindex))
                                          (GetSproutAnchorAt env (hashSproutRoot prev)),
                                        witnessHeight := nHeight pblockindex\<rparr>) w) of
                            Inl e \<Rightarrow> Inl e
                          | Inr w' \<Rightarrow>
                              (case sprout_note w' txid op of
                                 None \<Rightarrow> Inl UndefinedBehaviour
                               | Some nd' \<Rightarrow>
                                   (case nullifier nd' of
                                      None \<Rightarrow> Inl UndefinedBehaviour
                                    | Some nf \<Rightarrow>
                                        Inr (w', SproutWitnessMinimumHeight getBlockDepth
                                                   WITNESS_CACHE_SIZE w' nf (witnessHeight nd')
                                                   nMinimumHeight)))))))))"

definition verify_sapling_note ::
  "NodeView \<Rightarrow> (uint256 \<Rightarrow> int) \<Rightarrow> nat \<Rightarrow> CBlockIndex \<Rightarrow> bool \<Rightarrow> uint256 \<Rightarrow> uint256 \<Rightarrow> int \<Rightarrow>
   SaplingOutPoint \<Rightarrow> CWallet \<times> int \<Rightarrow> error + CWallet \<times> int" where
  "verify_sapling_note env getBlockDepth WITNESS_CACHE_SIZE pindex witnessOnly txid wtxHash wtxHeight op s =
     (case s of (w, nMinimumHeight) \<Rightarrow>
      (case sapling_note w txid op of
        None \<Rightarrow> Inr (w, nMinimumHeight)
      | Some nd0 \<Rightarrow>
          (case check_witness env hashSaplingRoot pindex witnessOnly
                  (if nullifier nd0 = None then ClearSingleNoteWitnessCache nd0 else nd0) of
             Inl e \<Rightarrow> Inl e
           | Inr (Skip, nd) \<Rightarrow> Inr (modify_sapling_note txid op (\<lambda>_. nd) w, nMinimumHeight)
           | Inr (Keep, nd) \<Rightarrow>
               (case nullifier nd of
                  None \<Rightarrow> Inl UndefinedBehaviour
                | Some nf \<Rightarrow>
                    Inr (modify_sapling_note txid op (\<lambda>_. nd) w,
                         SaplingWitnessMinimumHeight getBlockDepth WITNESS_CACHE_SIZE
                           (modify_sapling_note txid op (\<lambda>_. nd) w) nf
                           (witnessHeight nd) nMinimumHeight))
           | Inr (Rebuild, nd) \<Rightarrow>
               (case ChainActive env wtxHeight of
                  None \<Rightarrow> Inl UndefinedBehaviour
                | Some pblockindex \<Rightarrow>
                    (case pprev pblockindex of
                       None \<Rightarrow> Inl UndefinedBehaviour
                     | Some prev \<Rightarrow>
                         (case UpdateSaplingNullifierNoteMapWithTx env txid
                                 (modify_sapling_note txid op
                                    (\<lambda>_. (ClearSingleNoteWitnessCache nd)
                                       \<lparr>witnesses := initial_witness wtxHash op sapling_hash
                                          (sapling_outputs (ReadBlockFromDisk env pblockindex))
                                          (GetSaplingAnchorAt env (hashSaplingRoot prev)),
                                        witnessHeight := nHeight pblockindex\<rparr>) w) of
                            Inl e \<Rightarrow> Inl e
                          | Inr w' \<Rightarrow>
                              (case sapling_note w' txid op of
                                 None \<Rightarrow> Inl UndefinedBehaviour
                               | Some nd' \<Rightarrow>
                                   (case nullifier nd' of
                                      None \<Rightarrow> Inl UndefinedBehaviour
                                    | Some nf \<Rightarrow>
                                        Inr (w', SaplingWitnessMinimumHeight getBlockDepth
                                                   WITNESS_CACHE_SIZE w' nf (witnessHeight nd')
                                                   nMinimumHeight)))))))))"

text \<open>The loop body for one wallet transaction, and the whole function.\<close>

definition verify_wtx ::
  "NodeView \<Rightarrow> (uint256 \<Rightarrow> int) \<Rightarrow> nat \<Rightarrow> CBlockIndex \<Rightarrow> bool \<Rightarrow> uint256 \<Rightarrow> CWallet \<times> int \<Rightarrow>
   error + CWallet \<times> int" where
  "verify_wtx env getBlockDepth WITNESS_CACHE_SIZE pindex witnessOnly txid s =
     (case map_of (mapWallet (fst s)) txid of
        None \<Rightarrow> Inr s
      | Some wtx \<Rightarrow>
          if mapSproutNoteData wtx = [] \<and> mapSaplingNoteData wtx = [] then Inr s
          else if GetDepthInMainChain getBlockDepth wtx > 0 then
            (case LookupBlockIndex env (hashBlock (m_confirm wtx)) of
               None \<Rightarrow> Inl UndefinedBehaviour
             | Some pwtxindex \<Rightarrow>
                 (case for_each (verify_sprout_note env getBlockDepth WITNESS_CACHE_SIZE pindex witnessOnly
                                   txid (GetHash (tx wtx)) (nHeight pwtxindex))
                         (sprout_keys (fst s) txid) s of
                    Inl e \<Rightarrow> Inl e
                  | Inr s1 \<Rightarrow>
                      for_each (verify_sapling_note env getBlockDepth WITNESS_CACHE_SIZE pindex witnessOnly
                                  txid (GetHash (tx wtx)) (nHeight pwtxindex))
                        (sapling_keys (fst s1) txid) s1))
          else Inr s)"

definition VerifyAndSetInitialWitness ::
  "NodeView \<Rightarrow> (uint256 \<Rightarrow> int) \<Rightarrow> nat \<Rightarrow> CBlockIndex \<Rightarrow> bool \<Rightarrow> CWallet \<Rightarrow> error + CWallet \<times> int" where
  "VerifyAndSetInitialWitness env getBlockDepth WITNESS_CACHE_SIZE pindex witnessOnly w =
     for_each (verify_wtx env getBlockDepth WITNESS_CACHE_SIZE pindex witnessOnly)
       (map fst (mapWallet w)) (w, nHeight pindex)"

subsection \<open>\<^verbatim>\<open>CWallet::BuildWitnessCache\<close>\<close>

text \<open>
  The \<^verbatim>\<open>while (pblockindex)\<close> loop. It follows \<^verbatim>\<open>Next\<close> until it meets \<open>pindex\<close> or
  the end of the chain; nothing in wallet.cpp bounds it, so the result is \<open>None\<close> when
  it does not end. The trees read at the start of the body are not used.
\<close>

partial_function (option) BuildWitnessCache_loop ::
  "NodeView \<Rightarrow> (uint256 \<Rightarrow> int) \<Rightarrow> nat \<Rightarrow> CBlockIndex \<Rightarrow> CBlockIndex option \<Rightarrow> CWallet \<Rightarrow>
   (error + CWallet) option" where
  "BuildWitnessCache_loop env getBlockDepth WITNESS_CACHE_SIZE pindex p w =
     (case p of
        None \<Rightarrow> Some (Inr w)
      | Some pblockindex \<Rightarrow>
          (case pprev pblockindex of
             None \<Rightarrow> Some (Inl UndefinedBehaviour)
           | Some prev \<Rightarrow>
               (case extend_block getBlockDepth WITNESS_CACHE_SIZE (nHeight pblockindex)
                       (ReadBlockFromDisk env pblockindex) w of
                  Inl e \<Rightarrow> Some (Inl e)
                | Inr w' \<Rightarrow>
                    if pblockindex = pindex then Some (Inr w')
                    else BuildWitnessCache_loop env getBlockDepth WITNESS_CACHE_SIZE pindex
                           (Next env pblockindex) w')))"

definition BuildWitnessCache ::
  "NodeView \<Rightarrow> (uint256 \<Rightarrow> int) \<Rightarrow> nat \<Rightarrow> CBlockIndex \<Rightarrow> bool \<Rightarrow> CWallet \<Rightarrow> (error + CWallet) option" where
  "BuildWitnessCache env getBlockDepth WITNESS_CACHE_SIZE pindex witnessOnly w =
     (case VerifyAndSetInitialWitness env getBlockDepth WITNESS_CACHE_SIZE pindex witnessOnly w of
        Inl e \<Rightarrow> Some (Inl e)
      | Inr (w', nMinimumHeight) \<Rightarrow>
          if nMinimumHeight + 1 > nHeight pindex \<or> witnessOnly then Some (Inr w')
          else BuildWitnessCache_loop env getBlockDepth WITNESS_CACHE_SIZE pindex
                 (ChainActive env (nMinimumHeight + 1)) w')"

text \<open>Sequences of calls of \<^verbatim>\<open>BuildWitnessCache\<close> and \<^verbatim>\<open>DecrementNoteWitnesses\<close>.\<close>

datatype cache_op = Build CBlockIndex bool | Rewind CBlockIndex

fun apply_cache_op ::
  "NodeView \<Rightarrow> (uint256 \<Rightarrow> int) \<Rightarrow> nat \<Rightarrow> cache_op \<Rightarrow> CWallet \<Rightarrow> (error + CWallet) option" where
  "apply_cache_op env getBlockDepth WITNESS_CACHE_SIZE (Build pindex witnessOnly) w =
     BuildWitnessCache env getBlockDepth WITNESS_CACHE_SIZE pindex witnessOnly w"
| "apply_cache_op env getBlockDepth WITNESS_CACHE_SIZE (Rewind pindex) w =
     Some (Inr (DecrementNoteWitnesses getBlockDepth WITNESS_CACHE_SIZE (nHeight pindex) w))"

fun apply_cache_ops ::
  "NodeView \<Rightarrow> (uint256 \<Rightarrow> int) \<Rightarrow> nat \<Rightarrow> cache_op list \<Rightarrow> CWallet \<Rightarrow> (error + CWallet) option" where
  "apply_cache_ops env getBlockDepth WITNESS_CACHE_SIZE [] w = Some (Inr w)"
| "apply_cache_ops env getBlockDepth WITNESS_CACHE_SIZE (x # xs) w =
     (case apply_cache_op env getBlockDepth WITNESS_CACHE_SIZE x w of
        None \<Rightarrow> None
      | Some (Inl e) \<Rightarrow> Some (Inl e)
      | Some (Inr w') \<Rightarrow> apply_cache_ops env getBlockDepth WITNESS_CACHE_SIZE xs w')"

text \<open>The bound of the witness cache, for the notes with a cached nullifier.\<close>

definition note_bounded :: "nat \<Rightarrow> NoteData \<Rightarrow> bool" where
  "note_bounded WITNESS_CACHE_SIZE nd =
     (nullifier nd \<noteq> None \<longrightarrow> length (witnesses nd) \<le> WITNESS_CACHE_SIZE)"

definition witness_bound :: "nat \<Rightarrow> CWallet \<Rightarrow> bool" where
  "witness_bound WITNESS_CACHE_SIZE w =
     list_all (\<lambda>item.
        list_all (\<lambda>note. note_bounded WITNESS_CACHE_SIZE (snd note)) (mapSproutNoteData (snd item)) \<and>
        list_all (\<lambda>note. note_bounded WITNESS_CACHE_SIZE (snd note)) (mapSaplingNoteData (snd item)))
       (mapWallet w)"

text \<open>The same bound for every note, with or without a cached nullifier.\<close>

definition note_within :: "nat \<Rightarrow> NoteData \<Rightarrow> bool" where
  "note_within WITNESS_CACHE_SIZE nd = (length (witnesses nd) \<le> WITNESS_CACHE_SIZE)"

definition all_within :: "nat \<Rightarrow> CWallet \<Rightarrow> bool" where
  "all_within WITNESS_CACHE_SIZE w =
     list_all (\<lambda>item.
        list_all (\<lambda>note. note_within WITNESS_CACHE_SIZE (snd note)) (mapSproutNoteData (snd item)) \<and>
        list_all (\<lambda>note. note_within WITNESS_CACHE_SIZE (snd note)) (mapSaplingNoteData (snd item)))
       (mapWallet w)"

lemma fold_invariant:
  "(\<And>x s. P s \<Longrightarrow> P (f x s)) \<Longrightarrow> P s \<Longrightarrow> P (fold f xs s)"
  by (induction xs arbitrary: s) auto

lemma for_each_invariant:
  "(\<And>x s s'. P s \<Longrightarrow> body x s = Inr s' \<Longrightarrow> P s') \<Longrightarrow> P s \<Longrightarrow>
   for_each body xs s = Inr s' \<Longrightarrow> P s'"
  by (induction xs arbitrary: s) (auto split: sum.splits)

lemma list_all_map_entry:
  "(\<And>v. P v \<Longrightarrow> P (f v)) \<Longrightarrow> list_all (\<lambda>e. P (snd e)) xs \<Longrightarrow>
   list_all (\<lambda>e. P (snd e)) (AList.map_entry k f xs)"
  by (induction xs) auto

declare pop_back_while.simps [simp del]

lemma pop_back_while_take: "pop_back_while m xs = take m xs"
proof (induction m xs rule: pop_back_while.induct)
  case (1 m xs)
  show ?case
  proof (cases "length xs > m")
    case True
    then have "pop_back_while m xs = pop_back_while m (butlast xs)"
      by (subst pop_back_while.simps) simp
    also have "\<dots> = take m (butlast xs)" using 1 True by simp
    also have "\<dots> = take m xs" using True by (simp add: butlast_conv_take)
    finally show ?thesis .
  next
    case False
    then show ?thesis by (subst pop_back_while.simps) simp
  qed
qed

lemma append_to_front_length:
  "append_to_front cms ws = Inr ws' \<Longrightarrow> length ws' = length ws"
  by (induction cms ws arbitrary: ws' rule: append_to_front.induct) auto

lemma all_within_witness_bound: "all_within m w \<Longrightarrow> witness_bound m w"
  by (auto simp: all_within_def witness_bound_def note_within_def note_bounded_def list_all_iff)

lemma all_within_sprout_note:
  assumes "all_within m w" and "sprout_note w txid op = Some nd"
  shows "note_within m nd"
proof -
  from assms(2) obtain wtx where "map_of (mapWallet w) txid = Some wtx"
    and "map_of (mapSproutNoteData wtx) op = Some nd"
    by (auto simp: sprout_note_def split: option.splits)
  then have "(txid, wtx) \<in> set (mapWallet w)" and "(op, nd) \<in> set (mapSproutNoteData wtx)"
    by (auto dest: map_of_SomeD)
  with assms(1) show ?thesis
    by (fastforce simp: all_within_def list_all_iff)
qed

lemma all_within_sapling_note:
  assumes "all_within m w" and "sapling_note w txid op = Some nd"
  shows "note_within m nd"
proof -
  from assms(2) obtain wtx where "map_of (mapWallet w) txid = Some wtx"
    and "map_of (mapSaplingNoteData wtx) op = Some nd"
    by (auto simp: sapling_note_def split: option.splits)
  then have "(txid, wtx) \<in> set (mapWallet w)" and "(op, nd) \<in> set (mapSaplingNoteData wtx)"
    by (auto dest: map_of_SomeD)
  with assms(1) show ?thesis
    by (fastforce simp: all_within_def list_all_iff)
qed

lemma modify_sprout_note_within:
  assumes "\<And>nd. note_within m nd \<Longrightarrow> note_within m (f nd)" and "all_within m w"
  shows "all_within m (modify_sprout_note txid op f w)"
  using assms(2) unfolding all_within_def modify_sprout_note_def
  by (auto intro!: list_all_map_entry[where P="\<lambda>wtx. list_all (\<lambda>note. note_within m (snd note)) (mapSproutNoteData wtx) \<and>
        list_all (\<lambda>note. note_within m (snd note)) (mapSaplingNoteData wtx)"]
      list_all_map_entry[where P="note_within m"] assms(1))

lemma modify_sapling_note_within:
  assumes "\<And>nd. note_within m nd \<Longrightarrow> note_within m (f nd)" and "all_within m w"
  shows "all_within m (modify_sapling_note txid op f w)"
  using assms(2) unfolding all_within_def modify_sapling_note_def
  by (auto intro!: list_all_map_entry[where P="\<lambda>wtx. list_all (\<lambda>note. note_within m (snd note)) (mapSproutNoteData wtx) \<and>
        list_all (\<lambda>note. note_within m (snd note)) (mapSaplingNoteData wtx)"]
      list_all_map_entry[where P="note_within m"] assms(1))

lemma all_within_index_update [simp]:
  "all_within m (w\<lparr>mapSproutNullifiersToNotes := x\<rparr>) = all_within m w"
  "all_within m (w\<lparr>mapSaplingNullifiersToNotes := y\<rparr>) = all_within m w"
  by (simp_all add: all_within_def)

lemma DecrementNote_within:
  "note_within m nd \<Longrightarrow> note_within m (DecrementNote m d h nd)"
  by (auto simp: note_within_def DecrementNote_def split: option.splits)

lemma DecrementNoteWitnesses_within:
  assumes "all_within m w"
  shows "all_within m (DecrementNoteWitnesses c m h w)"
  unfolding DecrementNoteWitnesses_def Let_def
proof (rule fold_invariant[where P="all_within m", OF _ assms])
  fix txid w
  assume w: "all_within m w"
  define w1 where "w1 = fold (\<lambda>op w. modify_sprout_note txid op
      (DecrementNote m (GetSproutSpendDepth c w) h) w) (sprout_keys w txid) w"
  have "all_within m w1"
    unfolding w1_def
    by (rule fold_invariant[where P="all_within m", OF _ w])
       (rule modify_sprout_note_within, rule DecrementNote_within)
  then show "all_within m (fold (\<lambda>op w. modify_sapling_note txid op
      (DecrementNote m (GetSaplingSpendDepth c w) h) w) (sapling_keys w1 txid) w1)"
    by (rule fold_invariant[where P="all_within m", rotated])
       (rule modify_sapling_note_within, rule DecrementNote_within)
qed

lemma IncrementNote_within:
  "IncrementNote m cms h nd = Inr nd' \<Longrightarrow> note_within m nd'"
  by (auto simp: IncrementNote_def note_within_def pop_back_while_take
      split: list.splits sum.splits dest!: append_to_front_length)

lemma extend_sprout_note_within:
  assumes "all_within m w" and "extend_sprout_note c m h b txid op w = Inr w'"
  shows "all_within m w'"
proof (cases "w' = w")
  case True
  with assms(1) show ?thesis by simp
next
  case False
  with assms(2) obtain nd nd' where "IncrementNote m (sprout_commitments b) h nd = Inr nd'"
    and w': "w' = modify_sprout_note txid op (\<lambda>_. nd') w"
    by (auto simp: extend_sprout_note_def split: option.splits if_splits sum.splits)
  then have "note_within m nd'" by (simp add: IncrementNote_within)
  then show ?thesis unfolding w' using assms(1) by (intro modify_sprout_note_within)
qed

lemma extend_sapling_note_within:
  assumes "all_within m w" and "extend_sapling_note c m h b txid op w = Inr w'"
  shows "all_within m w'"
proof (cases "w' = w")
  case True
  with assms(1) show ?thesis by simp
next
  case False
  with assms(2) obtain nd nd' where "IncrementNote m (sapling_commitments b) h nd = Inr nd'"
    and w': "w' = modify_sapling_note txid op (\<lambda>_. nd') w"
    by (auto simp: extend_sapling_note_def split: option.splits if_splits sum.splits)
  then have "note_within m nd'" by (simp add: IncrementNote_within)
  then show ?thesis unfolding w' using assms(1) by (intro modify_sapling_note_within)
qed

lemma extend_wtx_within:
  assumes "all_within m w" and "extend_wtx c m h b txid w = Inr w'"
  shows "all_within m w'"
proof (cases "map_of (mapWallet w) txid")
  case None
  with assms show ?thesis by (simp add: extend_wtx_def)
next
  case (Some wtx)
  show ?thesis
  proof (cases "(mapSproutNoteData wtx = [] \<and> mapSaplingNoteData wtx = []) \<or> \<not> GetDepthInMainChain c wtx > 0")
    case True
    with Some assms show ?thesis by (auto simp: extend_wtx_def split: if_splits)
  next
    case False
    with Some assms(2) obtain w1 where
      w1: "for_each (extend_sprout_note c m h b txid) (sprout_keys w txid) w = Inr w1"
      and w': "for_each (extend_sapling_note c m h b txid) (sapling_keys w1 txid) w1 = Inr w'"
      by (auto simp: extend_wtx_def split: sum.splits)
    have b1: "all_within m w1"
    proof (rule for_each_invariant[where P="all_within m", OF _ assms(1) w1])
      fix x s s'
      assume "all_within m s" "extend_sprout_note c m h b txid x s = Inr s'"
      then show "all_within m s'" by (rule extend_sprout_note_within)
    qed
    show ?thesis
    proof (rule for_each_invariant[where P="all_within m", OF _ b1 w'])
      fix x s s'
      assume "all_within m s" "extend_sapling_note c m h b txid x s = Inr s'"
      then show "all_within m s'" by (rule extend_sapling_note_within)
    qed
  qed
qed

lemma extend_block_within:
  assumes "all_within m w" and "extend_block c m h b w = Inr w'"
  shows "all_within m w'"
proof (rule for_each_invariant[where P="all_within m", OF _ assms(1) assms(2)[unfolded extend_block_def]])
  fix x s s'
  assume "all_within m s" "extend_wtx c m h b x s = Inr s'"
  then show "all_within m s'" by (rule extend_wtx_within)
qed

lemma update_sprout_item_within:
  assumes "all_within m w" and "update_sprout_item env txid op w = Inr w'"
  shows "all_within m w'"
proof -
  have n: "note_within m nd \<Longrightarrow> note_within m (nd\<lparr>nullifier := x\<rparr>)" for nd x
    by (simp add: note_within_def)
  from assms(2) consider "w' = w"
    | x where "w' = w\<lparr>mapSproutNullifiersToNotes := x\<rparr>"
    | x nf where "w' = modify_sprout_note txid op (\<lambda>nd. nd\<lparr>nullifier := Some nf\<rparr>)
          (w\<lparr>mapSproutNullifiersToNotes := x\<rparr>)"
    by (auto simp: update_sprout_item_def
        split: option.splits if_splits SproutOutPoint.splits)
  then show ?thesis
  proof cases
    case 1
    with assms(1) show ?thesis by simp
  next
    case 2
    with assms(1) show ?thesis by simp
  next
    case 3
    show ?thesis unfolding 3
      by (rule modify_sprout_note_within[OF n]) (simp_all add: assms(1))
  qed
qed

lemma update_sapling_item_within:
  assumes "all_within m w" and "update_sapling_item env txid op w = Inr w'"
  shows "all_within m w'"
proof -
  have n: "note_within m nd \<Longrightarrow> note_within m (nd\<lparr>nullifier := x\<rparr>)" for nd x
    by (simp add: note_within_def)
  from assms(2) consider
      x where "w' = modify_sapling_note txid op (\<lambda>nd. nd\<lparr>nullifier := x\<rparr>) w"
    | x y where "w' = modify_sapling_note txid op (\<lambda>nd. nd\<lparr>nullifier := x\<rparr>)
          (w\<lparr>mapSaplingNullifiersToNotes := y\<rparr>)"
    | "w' = w"
    by (auto simp: update_sapling_item_def
        split: option.splits if_splits list.splits SaplingOutPoint.splits)
  then show ?thesis
  proof cases
    case 1
    show ?thesis unfolding 1
      by (rule modify_sapling_note_within[OF n]) (simp_all add: assms(1))
  next
    case 2
    show ?thesis unfolding 2
      by (rule modify_sapling_note_within[OF n]) (simp_all add: assms(1))
  next
    case 3
    with assms(1) show ?thesis by simp
  qed
qed

lemma UpdateSproutNullifierNoteMapWithTx_within:
  assumes "all_within m w" and "UpdateSproutNullifierNoteMapWithTx env txid w = Inr w'"
  shows "all_within m w'"
proof (rule for_each_invariant[where P="all_within m",
      OF _ assms(1) assms(2)[unfolded UpdateSproutNullifierNoteMapWithTx_def]])
  fix x s s'
  assume "all_within m s" "update_sprout_item env txid x s = Inr s'"
  then show "all_within m s'" by (rule update_sprout_item_within)
qed

lemma UpdateSaplingNullifierNoteMapWithTx_within:
  assumes "all_within m w" and "UpdateSaplingNullifierNoteMapWithTx env txid w = Inr w'"
  shows "all_within m w'"
proof (rule for_each_invariant[where P="all_within m",
      OF _ assms(1) assms(2)[unfolded UpdateSaplingNullifierNoteMapWithTx_def]])
  fix x s s'
  assume "all_within m s" "update_sapling_item env txid x s = Inr s'"
  then show "all_within m s'" by (rule update_sapling_item_within)
qed

lemma check_witness_witnesses:
  "check_witness env hr pindex wo nd = Inr (v, nd') \<Longrightarrow> witnesses nd' = witnesses nd"
  by (auto simp: check_witness_def split: list.splits if_splits option.splits)

lemma witness_step_length:
  "length (snd s) \<le> 1 \<Longrightarrow> length (snd (witness_step x s)) \<le> 1"
  by (cases "(x, s)" rule: witness_step.cases) auto

lemma fold_witness_step_length:
  "length (snd s) \<le> 1 \<Longrightarrow> length (snd (fold witness_step xs s)) \<le> 1"
proof (induction xs arbitrary: s)
  case Nil
  then show ?case by simp
next
  case (Cons x xs)
  from Cons.prems have "length (snd (witness_step x s)) \<le> 1" by (rule witness_step_length)
  then have "length (snd (fold witness_step xs (witness_step x s))) \<le> 1" by (rule Cons.IH)
  then show ?case by simp
qed

lemma initial_witness_length: "length (initial_witness h op f outs tree) \<le> 1"
  unfolding initial_witness_def by (rule fold_witness_step_length) simp

lemma verify_sprout_note_within:
  assumes m: "1 \<le> m" and inv: "all_within m (fst s)"
    and r: "verify_sprout_note env c m pindex wo txid h ht op s = Inr s'"
  shows "all_within m (fst s')"
proof -
  obtain w n where s: "s = (w, n)" by (cases s)
  from inv s have w: "all_within m w" by simp
  show ?thesis
  proof (cases "sprout_note w txid op")
    case None
    with r s have "s' = s" by (simp add: verify_sprout_note_def)
    with inv show ?thesis by simp
  next
    case (Some nd0)
    let ?nd1 = "if nullifier nd0 = None then ClearSingleNoteWitnessCache nd0 else nd0"
    from all_within_sprout_note[OF w Some] have nd1: "note_within m ?nd1"
      by (simp add: note_within_def ClearSingleNoteWitnessCache_def)
    from r s Some obtain v nd where cw: "check_witness env hashSproutRoot pindex wo ?nd1 = Inr (v, nd)"
      by (cases "check_witness env hashSproutRoot pindex wo ?nd1")
         (auto simp: verify_sprout_note_def)
    from check_witness_witnesses[OF cw] nd1 have nd: "note_within m nd"
      by (simp add: note_within_def)
    have keep: "all_within m (modify_sprout_note txid op (\<lambda>_. nd) w)"
      by (rule modify_sprout_note_within[OF _ w]) (rule nd)
    show ?thesis
    proof (cases v)
      case Skip
      with r s Some cw have "fst s' = modify_sprout_note txid op (\<lambda>_. nd) w"
        by (auto simp: verify_sprout_note_def)
      with keep show ?thesis by simp
    next
      case Keep
      with r s Some cw have "fst s' = modify_sprout_note txid op (\<lambda>_. nd) w"
        by (auto simp: verify_sprout_note_def split: option.splits)
      with keep show ?thesis by simp
    next
      case Rebuild
      from r s Some cw Rebuild obtain pb where pb: "ChainActive env ht = Some pb"
        by (cases "ChainActive env ht") (auto simp: verify_sprout_note_def)
      from r s Some cw Rebuild pb obtain prev where prev: "pprev pb = Some prev"
        by (cases "pprev pb") (auto simp: verify_sprout_note_def)
      define nd3 where "nd3 = (ClearSingleNoteWitnessCache nd)
                \<lparr>witnesses := initial_witness h op sprout_hash
                   (sprout_outputs (ReadBlockFromDisk env pb))
                   (GetSproutAnchorAt env (hashSproutRoot prev)),
                 witnessHeight := nHeight pb\<rparr>"
      from r s Some cw Rebuild pb prev obtain w2 where u1: "UpdateSproutNullifierNoteMapWithTx env txid
          (modify_sprout_note txid op (\<lambda>_. nd3) w) = Inr w2"
        by (cases "UpdateSproutNullifierNoteMapWithTx env txid
          (modify_sprout_note txid op (\<lambda>_. nd3) w)") (auto simp: verify_sprout_note_def nd3_def)
      from r s Some cw Rebuild pb prev u1 have "fst s' = w2"
        by (auto simp: verify_sprout_note_def nd3_def split: option.splits)
      with u1 have u: "UpdateSproutNullifierNoteMapWithTx env txid
          (modify_sprout_note txid op (\<lambda>_. nd3) w) = Inr (fst s')"
        by simp
      have "length (witnesses nd3) \<le> 1"
        unfolding nd3_def using initial_witness_length by simp
      with m have "note_within m nd3" by (simp add: note_within_def)
      then have "all_within m (modify_sprout_note txid op (\<lambda>_. nd3) w)"
        by (intro modify_sprout_note_within[OF _ w])
      then show ?thesis using u by (rule UpdateSproutNullifierNoteMapWithTx_within)
    qed
  qed
qed

lemma verify_sapling_note_within:
  assumes m: "1 \<le> m" and inv: "all_within m (fst s)"
    and r: "verify_sapling_note env c m pindex wo txid h ht op s = Inr s'"
  shows "all_within m (fst s')"
proof -
  obtain w n where s: "s = (w, n)" by (cases s)
  from inv s have w: "all_within m w" by simp
  show ?thesis
  proof (cases "sapling_note w txid op")
    case None
    with r s have "s' = s" by (simp add: verify_sapling_note_def)
    with inv show ?thesis by simp
  next
    case (Some nd0)
    let ?nd1 = "if nullifier nd0 = None then ClearSingleNoteWitnessCache nd0 else nd0"
    from all_within_sapling_note[OF w Some] have nd1: "note_within m ?nd1"
      by (simp add: note_within_def ClearSingleNoteWitnessCache_def)
    from r s Some obtain v nd where cw: "check_witness env hashSaplingRoot pindex wo ?nd1 = Inr (v, nd)"
      by (cases "check_witness env hashSaplingRoot pindex wo ?nd1")
         (auto simp: verify_sapling_note_def)
    from check_witness_witnesses[OF cw] nd1 have nd: "note_within m nd"
      by (simp add: note_within_def)
    have keep: "all_within m (modify_sapling_note txid op (\<lambda>_. nd) w)"
      by (rule modify_sapling_note_within[OF _ w]) (rule nd)
    show ?thesis
    proof (cases v)
      case Skip
      with r s Some cw have "fst s' = modify_sapling_note txid op (\<lambda>_. nd) w"
        by (auto simp: verify_sapling_note_def)
      with keep show ?thesis by simp
    next
      case Keep
      with r s Some cw have "fst s' = modify_sapling_note txid op (\<lambda>_. nd) w"
        by (auto simp: verify_sapling_note_def split: option.splits)
      with keep show ?thesis by simp
    next
      case Rebuild
      from r s Some cw Rebuild obtain pb where pb: "ChainActive env ht = Some pb"
        by (cases "ChainActive env ht") (auto simp: verify_sapling_note_def)
      from r s Some cw Rebuild pb obtain prev where prev: "pprev pb = Some prev"
        by (cases "pprev pb") (auto simp: verify_sapling_note_def)
      define nd3 where "nd3 = (ClearSingleNoteWitnessCache nd)
                \<lparr>witnesses := initial_witness h op sapling_hash
                   (sapling_outputs (ReadBlockFromDisk env pb))
                   (GetSaplingAnchorAt env (hashSaplingRoot prev)),
                 witnessHeight := nHeight pb\<rparr>"
      from r s Some cw Rebuild pb prev obtain w2 where u1: "UpdateSaplingNullifierNoteMapWithTx env txid
          (modify_sapling_note txid op (\<lambda>_. nd3) w) = Inr w2"
        by (cases "UpdateSaplingNullifierNoteMapWithTx env txid
          (modify_sapling_note txid op (\<lambda>_. nd3) w)") (auto simp: verify_sapling_note_def nd3_def)
      from r s Some cw Rebuild pb prev u1 have "fst s' = w2"
        by (auto simp: verify_sapling_note_def nd3_def split: option.splits)
      with u1 have u: "UpdateSaplingNullifierNoteMapWithTx env txid
          (modify_sapling_note txid op (\<lambda>_. nd3) w) = Inr (fst s')"
        by simp
      have "length (witnesses nd3) \<le> 1"
        unfolding nd3_def using initial_witness_length by simp
      with m have "note_within m nd3" by (simp add: note_within_def)
      then have "all_within m (modify_sapling_note txid op (\<lambda>_. nd3) w)"
        by (intro modify_sapling_note_within[OF _ w])
      then show ?thesis using u by (rule UpdateSaplingNullifierNoteMapWithTx_within)
    qed
  qed
qed

lemma verify_wtx_within:
  assumes m: "1 \<le> m" and inv: "all_within m (fst s)"
    and r: "verify_wtx env c m pindex wo txid s = Inr s'"
  shows "all_within m (fst s')"
proof (cases "s' = s")
  case True
  with inv show ?thesis by simp
next
  case False
  with r obtain h ht s1 where
    s1: "for_each (verify_sprout_note env c m pindex wo txid h ht) (sprout_keys (fst s) txid) s = Inr s1"
    and s': "for_each (verify_sapling_note env c m pindex wo txid h ht) (sapling_keys (fst s1) txid) s1 = Inr s'"
    by (auto simp: verify_wtx_def split: option.splits if_splits sum.splits)
  have b1: "all_within m (fst s1)"
  proof (rule for_each_invariant[where P="\<lambda>s. all_within m (fst s)", OF _ inv s1])
    fix x s s'
    assume "all_within m (fst s)" "verify_sprout_note env c m pindex wo txid h ht x s = Inr s'"
    with m show "all_within m (fst s')" by (rule verify_sprout_note_within)
  qed
  show ?thesis
  proof (rule for_each_invariant[where P="\<lambda>s. all_within m (fst s)", OF _ b1 s'])
    fix x s s'
    assume "all_within m (fst s)" "verify_sapling_note env c m pindex wo txid h ht x s = Inr s'"
    with m show "all_within m (fst s')" by (rule verify_sapling_note_within)
  qed
qed

lemma VerifyAndSetInitialWitness_within:
  assumes m: "1 \<le> m" and inv: "all_within m w"
    and r: "VerifyAndSetInitialWitness env c m pindex wo w = Inr s'"
  shows "all_within m (fst s')"
proof (rule for_each_invariant[where P="\<lambda>s. all_within m (fst s)",
      OF _ _ r[unfolded VerifyAndSetInitialWitness_def]])
  fix x s s'
  assume "all_within m (fst s)" "verify_wtx env c m pindex wo x s = Inr s'"
  with m show "all_within m (fst s')" by (rule verify_wtx_within)
next
  from inv show "all_within m (fst (w, nHeight pindex))" by simp
qed

lemma BuildWitnessCache_loop_within:
  assumes r: "BuildWitnessCache_loop env c m pindex p w = Some (Inr w')"
    and inv: "all_within m w"
  shows "all_within m w'"
proof -
  have "all_within m w \<longrightarrow> (\<forall>w'. y = Inr w' \<longrightarrow> all_within m w')"
    if "BuildWitnessCache_loop env c m pindex p w = Some y" for y
  proof (rule BuildWitnessCache_loop.raw_induct[where P="\<lambda>env c m pindex p w y.
      all_within m w \<longrightarrow> (\<forall>w'. y = Inr w' \<longrightarrow> all_within m w')", OF _ that], goal_cases)
    case (1 loop env c m pindex p w y)
    show ?case
    proof (intro impI allI)
      fix w'
      assume inv: "all_within m w" and y: "y = Inr w'"
      show "all_within m w'"
      proof (cases p)
        case None
        with 1(2) y inv show ?thesis by simp
      next
        case (Some pblockindex)
        with 1(2) y obtain w1 where
          e: "extend_block c m (nHeight pblockindex) (ReadBlockFromDisk env pblockindex) w = Inr w1"
          and c: "(pblockindex = pindex \<and> w' = w1) \<or>
                  (pblockindex \<noteq> pindex \<and> loop env c m pindex (Next env pblockindex) w1 = Some (Inr w'))"
          by (auto split: option.splits sum.splits if_splits)
        from inv e have w1: "all_within m w1" by (rule extend_block_within)
        from c show ?thesis
        proof
          assume "pblockindex = pindex \<and> w' = w1"
          with w1 show ?thesis by simp
        next
          assume "pblockindex \<noteq> pindex \<and> loop env c m pindex (Next env pblockindex) w1 = Some (Inr w')"
          then have "loop env c m pindex (Next env pblockindex) w1 = Some (Inr w')" by simp
          from 1(1)[OF this] w1 show ?thesis by simp
        qed
      qed
    qed
  qed
  from this[OF r] inv show ?thesis by simp
qed

lemma BuildWitnessCache_within:
  assumes m: "1 \<le> m" and inv: "all_within m w"
    and r: "BuildWitnessCache env c m pindex wo w = Some (Inr w')"
  shows "all_within m w'"
proof -
  from r obtain w1 n where v: "VerifyAndSetInitialWitness env c m pindex wo w = Inr (w1, n)"
    and c: "w' = w1 \<or> BuildWitnessCache_loop env c m pindex (ChainActive env (n + 1)) w1 = Some (Inr w')"
    by (auto simp: BuildWitnessCache_def split: sum.splits if_splits)
  from VerifyAndSetInitialWitness_within[OF m inv v] have w1: "all_within m w1" by simp
  from c show ?thesis
  proof
    assume "w' = w1"
    with w1 show ?thesis by simp
  next
    assume "BuildWitnessCache_loop env c m pindex (ChainActive env (n + 1)) w1 = Some (Inr w')"
    then show ?thesis using w1 by (rule BuildWitnessCache_loop_within)
  qed
qed

lemma apply_cache_op_within:
  assumes m: "1 \<le> m" and inv: "all_within m w"
    and r: "apply_cache_op env c m x w = Some (Inr w')"
  shows "all_within m w'"
proof (cases x)
  case (Build pindex wo)
  with r have "BuildWitnessCache env c m pindex wo w = Some (Inr w')" by simp
  with m inv show ?thesis by (rule BuildWitnessCache_within)
next
  case (Rewind pindex)
  with r have "w' = DecrementNoteWitnesses c m (nHeight pindex) w" by simp
  with inv show ?thesis by (simp add: DecrementNoteWitnesses_within)
qed

lemma apply_cache_ops_within:
  assumes m: "1 \<le> m"
  shows "all_within m w \<Longrightarrow> apply_cache_ops env c m ops w = Some (Inr w') \<Longrightarrow> all_within m w'"
proof (induction ops arbitrary: w)
  case Nil
  then show ?case by simp
next
  case (Cons x xs)
  from Cons.prems(2) obtain w1 where x: "apply_cache_op env c m x w = Some (Inr w1)"
    and xs: "apply_cache_ops env c m xs w1 = Some (Inr w')"
    by (auto split: option.splits sum.splits)
  from m Cons.prems(1) x have "all_within m w1" by (rule apply_cache_op_within)
  then show ?case using xs by (rule Cons.IH)
qed

text \<open>
  Claim C1. Let the cache size be at least 1 and let every note of the wallet hold at
  most \<open>WITNESS_CACHE_SIZE\<close> witnesses (as in a wallet whose notes have no witnesses
  yet). Then after any sequence of calls of \<^verbatim>\<open>BuildWitnessCache\<close> and
  \<^verbatim>\<open>DecrementNoteWitnesses\<close> that runs to its end, every note with a cached nullifier
  holds at most \<open>WITNESS_CACHE_SIZE\<close> witnesses, and so does every other note. The
  hypothesis speaks of the notes without a nullifier too, because the verification pass
  can compute the nullifier of such a note and keep its witnesses.
\<close>

theorem witness_bound_invariant:
  assumes "1 \<le> WITNESS_CACHE_SIZE"
    and "all_within WITNESS_CACHE_SIZE w"
    and "apply_cache_ops env getBlockDepth WITNESS_CACHE_SIZE ops w = Some (Inr w')"
  shows "all_within WITNESS_CACHE_SIZE w' \<and> witness_bound WITNESS_CACHE_SIZE w'"
  using apply_cache_ops_within[OF assms] by (simp add: all_within_witness_bound)

text \<open>
  A wallet with one transaction, confirmed in block 100, that holds one Sprout note and
  two Sapling notes; block 100 is five blocks deep.
\<close>

definition ex_note :: "uint256 option \<Rightarrow> IncrementalWitness list \<Rightarrow> int \<Rightarrow> NoteData" where
  "ex_note nf ws h = \<lparr>nullifier = nf, witnesses = ws, witnessHeight = h, witnessRootValidated = False\<rparr>"

definition ex_cache_wallet :: CWallet where
  "ex_cache_wallet = \<lparr>mapWallet = [(1, \<lparr>tx = ex_tx 1 [],
        m_confirm = \<lparr>status = CONFIRMED, hashBlock = 100, nIndex = 0\<rparr>,
        mapSproutNoteData = [(SproutOutPoint 1 0 0, ex_note (Some 7) [IncrementalWitness [5] []] 10)],
        mapSaplingNoteData =
          [(SaplingOutPoint 1 0, ex_note (Some 8) [IncrementalWitness [6] [], IncrementalWitness [4] []] 10),
           (SaplingOutPoint 1 1, ex_note (Some 9) [IncrementalWitness [6] [], IncrementalWitness [4] []] 20)],
        fFromMe = False, fInMempool = False, nOrderPos = 0, nTimeReceived = 0, fCached = True\<rparr>)],
     mapTxSpends = [], mapTxSproutNullifiers = [],
     mapTxSaplingNullifiers = [], mapSproutNullifiersToNotes = [],
     mapSaplingNullifiersToNotes = [], setLockedCoins = [], wtxOrdered = [],
     nOrderPosNext = 0, db = []\<rparr>"

definition ex_chain :: "uint256 \<Rightarrow> int" where
  "ex_chain b = (if b = 100 then 5 else 0)"

definition ex_block :: "uint256 \<Rightarrow> CBlock" where
  "ex_block cm = \<lparr>vtx = [(ex_tx cm [])\<lparr>vJoinSplit := [\<lparr>nullifiers = [], commitments = [cm, cm + 1]\<rparr>]\<rparr>]\<rparr>"

lemmas ex_cache_defs = ex_cache_wallet_def ex_chain_def ex_block_def ex_tx_def ex_note_def
  extend_block_def extend_wtx_def extend_sprout_note_def extend_sapling_note_def
  sprout_keys_def sapling_keys_def sprout_note_def sapling_note_def
  GetDepthInMainChain_def GetDepthInMainChainINTERNAL_def isUnconfirmed_def isAbandoned_def
  isConflicted_def GetSproutSpendDepth_def GetSaplingSpendDepth_def equal_range_def lower_bound_def
  IncrementNote_def pop_back_while_take sprout_commitments_def sapling_commitments_def
  witness_append_def modify_sprout_note_def modify_sapling_note_def DecrementNoteWitnesses_def
  DecrementNote_def

text \<open>
  A chain of four blocks, each holding one transaction with one shielded output, and a
  wallet whose transaction 1 was confirmed in the block at height 1; its Sapling note
  has no witness yet.
\<close>

definition ex_b0 :: CBlockIndex where
  "ex_b0 = CBlockIndex 100 0 0 0 None"

definition ex_b1 :: CBlockIndex where
  "ex_b1 = CBlockIndex 101 1 0 0 (Some ex_b0)"

definition ex_b2 :: CBlockIndex where
  "ex_b2 = CBlockIndex 102 2 0 0 (Some ex_b1)"

definition ex_b3 :: CBlockIndex where
  "ex_b3 = CBlockIndex 103 3 0 0 (Some ex_b2)"

definition ex_active :: "int \<Rightarrow> CBlockIndex option" where
  "ex_active h = (if h = 0 then Some ex_b0 else if h = 1 then Some ex_b1
     else if h = 2 then Some ex_b2 else if h = 3 then Some ex_b3 else None)"

definition ex_node :: NodeView where
  "ex_node = \<lparr>ChainActive = ex_active,
     Next = (\<lambda>b. ex_active (nHeight b + 1)),
     LookupBlockIndex = (\<lambda>h. if 100 \<le> h then ex_active (int h - 100) else None),
     ReadBlockFromDisk = (\<lambda>b. \<lparr>vtx = [(ex_tx (nat (nHeight b)) [])\<lparr>vShieldedOutput := [50 + nat (nHeight b)]\<rparr>]\<rparr>),
     GetSproutAnchorAt = (\<lambda>r. []),
     GetSaplingAnchorAt = (\<lambda>r. []),
     root = (\<lambda>wit. 0),
     GetNoteDecryptor = (\<lambda>wtx op. True),
     GetSproutNoteNullifier = (\<lambda>wtx op. Some 7),
     HaveSaplingFullViewingKey = (\<lambda>wtx op. True),
     GetSaplingNoteNullifier = (\<lambda>wtx op wit. Some 8)\<rparr>"

definition ex_fresh_wallet :: CWallet where
  "ex_fresh_wallet = \<lparr>mapWallet = [(1, \<lparr>tx = (ex_tx 1 [])\<lparr>vShieldedOutput := [51]\<rparr>,
        m_confirm = \<lparr>status = CONFIRMED, hashBlock = 101, nIndex = 0\<rparr>,
        mapSproutNoteData = [],
        mapSaplingNoteData = [(SaplingOutPoint 1 0, ex_note None [] (- 1))],
        fFromMe = False, fInMempool = False, nOrderPos = 0, nTimeReceived = 0, fCached = True\<rparr>)],
     mapTxSpends = [], mapTxSproutNullifiers = [],
     mapTxSaplingNullifiers = [], mapSproutNullifiersToNotes = [],
     mapSaplingNullifiersToNotes = [], setLockedCoins = [], wtxOrdered = [],
     nOrderPosNext = 0, db = []\<rparr>"

definition ex_depth :: "uint256 \<Rightarrow> int" where
  "ex_depth b = (if b = 101 then 3 else 0)"

lemmas ex_build_defs = ex_b0_def ex_b1_def ex_b2_def ex_b3_def ex_active_def ex_node_def
  ex_fresh_wallet_def ex_depth_def ex_tx_def ex_note_def
  BuildWitnessCache_def VerifyAndSetInitialWitness_def verify_wtx_def verify_sapling_note_def
  verify_sprout_note_def check_witness_def ClearSingleNoteWitnessCache_def initial_witness_def
  sapling_outputs_def sprout_outputs_def UpdateSaplingNullifierNoteMapWithTx_def
  UpdateSproutNullifierNoteMapWithTx_def update_sapling_item_def update_sprout_item_def
  SaplingWitnessMinimumHeight_def SproutWitnessMinimumHeight_def
  BuildWitnessCache_loop.simps
  extend_block_def extend_wtx_def extend_sprout_note_def extend_sapling_note_def
  sprout_keys_def sapling_keys_def sprout_note_def sapling_note_def
  GetDepthInMainChain_def GetDepthInMainChainINTERNAL_def isUnconfirmed_def isAbandoned_def
  isConflicted_def GetSproutSpendDepth_def GetSaplingSpendDepth_def equal_range_def lower_bound_def
  IncrementNote_def pop_back_while_take sprout_commitments_def sapling_commitments_def
  witness_append_def modify_sprout_note_def modify_sapling_note_def DecrementNoteWitnesses_def
  DecrementNote_def

text \<open>
  An instance of C1 with a cache of size 2: the witness of the note is built from the
  block at height 1, the blocks at heights 2 and 3 are folded in, and the block at
  height 3 is rewound.
\<close>

theorem witness_bound_invariant_witness:
  "all_within 2 ex_fresh_wallet \<and>
   (\<exists>w'. apply_cache_ops ex_node ex_depth 2 [Build ex_b3 False, Rewind ex_b3] ex_fresh_wallet =
           Some (Inr w') \<and>
      sapling_note w' 1 (SaplingOutPoint 1 0) =
        Some \<lparr>nullifier = Some 8, witnesses = [IncrementalWitness [51] [52]],
              witnessHeight = 2, witnessRootValidated = False\<rparr> \<and>
      witness_bound 2 w')"
proof -
  have m: "1 \<le> (2::nat)" by simp
  have b: "all_within 2 ex_fresh_wallet"
    by (simp add: all_within_def note_within_def ex_fresh_wallet_def ex_note_def)
  have "\<exists>w'. apply_cache_ops ex_node ex_depth 2 [Build ex_b3 False, Rewind ex_b3] ex_fresh_wallet =
           Some (Inr w') \<and>
      sapling_note w' 1 (SaplingOutPoint 1 0) =
        Some \<lparr>nullifier = Some 8, witnesses = [IncrementalWitness [51] [52]],
              witnessHeight = 2, witnessRootValidated = False\<rparr>"
    by (simp add: ex_build_defs enumerate_eq_zip)
  then obtain w' where
    r: "apply_cache_ops ex_node ex_depth 2 [Build ex_b3 False, Rewind ex_b3] ex_fresh_wallet =
           Some (Inr w')"
    and n: "sapling_note w' 1 (SaplingOutPoint 1 0) =
        Some \<lparr>nullifier = Some 8, witnesses = [IncrementalWitness [51] [52]],
              witnessHeight = 2, witnessRootValidated = False\<rparr>"
    by blast
  from witness_bound_invariant[OF m b r] b r n show ?thesis by blast
qed

text \<open>
  An instance of C3: rewinding at height 12 takes the front witness of the first Sapling
  note, and leaves the second one, whose witness height is 20, as it is.
\<close>

theorem rewind_note_effect_witness:
  "wallet_keys_distinct ex_cache_wallet \<and>
   sapling_note (DecrementNoteWitnesses ex_chain 2 12 ex_cache_wallet) 1 (SaplingOutPoint 1 0) =
     Some (ex_note (Some 8) [IncrementalWitness [4] []] 11) \<and>
   sapling_note (DecrementNoteWitnesses ex_chain 2 12 ex_cache_wallet) 1 (SaplingOutPoint 1 1) =
     Some (ex_note (Some 9) [IncrementalWitness [6] [], IncrementalWitness [4] []] 20)"
proof -
  have d: "wallet_keys_distinct ex_cache_wallet"
    by (simp add: wallet_keys_distinct_def ex_cache_wallet_def)
  have n: "sapling_note ex_cache_wallet 1 (SaplingOutPoint 1 0) =
      Some (ex_note (Some 8) [IncrementalWitness [6] [], IncrementalWitness [4] []] 10)"
    "sapling_note ex_cache_wallet 1 (SaplingOutPoint 1 1) =
      Some (ex_note (Some 9) [IncrementalWitness [6] [], IncrementalWitness [4] []] 20)"
    by (simp_all add: sapling_note_def ex_cache_wallet_def)
  have r: "rewind_result 2 (GetSaplingSpendDepth ex_chain ex_cache_wallet) 12
      (ex_note (Some 8) [IncrementalWitness [6] [], IncrementalWitness [4] []] 10) =
      ex_note (Some 8) [IncrementalWitness [4] []] 11"
    "rewind_result 2 (GetSaplingSpendDepth ex_chain ex_cache_wallet) 12
      (ex_note (Some 9) [IncrementalWitness [6] [], IncrementalWitness [4] []] 20) =
      ex_note (Some 9) [IncrementalWitness [6] [], IncrementalWitness [4] []] 20"
    by (simp_all add: rewind_result_def rewindable_def rewound_def ex_note_def
        GetSaplingSpendDepth_def equal_range_def lower_bound_def ex_cache_wallet_def)
  from rewind_note_effect[OF d, of ex_chain 2 12 1 _ "SaplingOutPoint 1 0"]
    rewind_note_effect[OF d, of ex_chain 2 12 1 _ "SaplingOutPoint 1 1"]
  show ?thesis using d n r by simp
qed

text \<open>
  Claim C3 as stated fails there: the first Sapling note loses its front witness, not its
  oldest one, and the second note, above the current height, loses none.
\<close>

theorem rewind_drops_front_counterexample:
  "map_option witnesses
     (sapling_note (DecrementNoteWitnesses ex_chain 2 12 ex_cache_wallet) 1 (SaplingOutPoint 1 0)) =
     Some [IncrementalWitness [4] []] \<and>
   map_option (\<lambda>nd. witnesses (claimed_rewind 12 nd))
     (sapling_note ex_cache_wallet 1 (SaplingOutPoint 1 0)) = Some [IncrementalWitness [6] []] \<and>
   map_option witnesses
     (sapling_note (DecrementNoteWitnesses ex_chain 2 12 ex_cache_wallet) 1 (SaplingOutPoint 1 1)) =
     Some [IncrementalWitness [6] [], IncrementalWitness [4] []] \<and>
   map_option (\<lambda>nd. witnesses (claimed_rewind 12 nd))
     (sapling_note ex_cache_wallet 1 (SaplingOutPoint 1 1)) = Some [IncrementalWitness [6] []]"
  by (simp add: ex_cache_defs claimed_rewind_def)

section \<open>Adding a transaction to the wallet\<close>

subsection \<open>Merging note data: \<^verbatim>\<open>CWallet::UpdatedNoteData\<close>\<close>

text \<open>
  The loop over the stored note data \<open>wtx.mapSproutNoteData\<close> (or its Sapling twin),
  updating the copy \<open>tmp\<close> of the incoming note data. \<^verbatim>\<open>tmp.at(key)\<close> throws
  \<^verbatim>\<open>std::out_of_range\<close> for a key that \<open>tmp\<close> does not hold.
\<close>

fun merge_note_data :: "('k \<times> NoteData) list \<Rightarrow> ('k \<times> NoteData) list \<Rightarrow> error + ('k \<times> NoteData) list" where
  "merge_note_data [] tmp = Inr tmp"
| "merge_note_data (nd # rest) tmp =
     (let tmp1 = (if map_of tmp (fst nd) \<noteq> None \<and> length (witnesses (snd nd)) > 0
                  then AList.map_entry (fst nd) (\<lambda>t. t\<lparr>witnesses := witnesses (snd nd)\<rparr>) tmp
                  else tmp)
      in if map_of tmp1 (fst nd) = None then Inl OutOfRange
         else merge_note_data rest
                (AList.map_entry (fst nd) (\<lambda>t. t\<lparr>witnessHeight := witnessHeight (snd nd)\<rparr>) tmp1))"

text \<open>
  \<^verbatim>\<open>operator==\<close> of two note data maps: they have the same size and their entries are
  equal one by one. The \<^verbatim>\<open>operator==\<close> of the note data classes is declared outside
  wallet.cpp and is a parameter.
\<close>

definition note_map_eq ::
  "(NoteData \<Rightarrow> NoteData \<Rightarrow> bool) \<Rightarrow> ('k \<times> NoteData) list \<Rightarrow> ('k \<times> NoteData) list \<Rightarrow> bool" where
  "note_map_eq NoteDataEq xs ys =
     list_all2 (\<lambda>x y. fst x = fst y \<and> NoteDataEq (snd x) (snd y)) xs ys"

text \<open>
  \<open>UpdatedNoteData wtxIn wtx\<close> returns the stored transaction as the call leaves it,
  together with the value returned or the exception thrown.
\<close>

definition UpdatedNoteData ::
  "(NoteData \<Rightarrow> NoteData \<Rightarrow> bool) \<Rightarrow> (NoteData \<Rightarrow> NoteData \<Rightarrow> bool) \<Rightarrow>
   CWalletTx \<Rightarrow> CWalletTx \<Rightarrow> (error + bool) \<times> CWalletTx" where
  "UpdatedNoteData SproutNoteDataEq SaplingNoteDataEq wtxIn wtx =
     (let unchangedSproutFlag =
            (mapSproutNoteData wtxIn = [] \<or>
             note_map_eq SproutNoteDataEq (mapSproutNoteData wtxIn) (mapSproutNoteData wtx))
      in case (if \<not> unchangedSproutFlag
               then (case merge_note_data (mapSproutNoteData wtx) (mapSproutNoteData wtxIn) of
                       Inl e \<Rightarrow> Inl e
                     | Inr tmp \<Rightarrow> Inr (wtx\<lparr>mapSproutNoteData := tmp\<rparr>))
               else Inr wtx) of
           Inl e \<Rightarrow> (Inl e, wtx)
         | Inr wtx1 \<Rightarrow>
             (let unchangedSaplingFlag =
                    (mapSaplingNoteData wtxIn = [] \<or>
                     note_map_eq SaplingNoteDataEq (mapSaplingNoteData wtxIn) (mapSaplingNoteData wtx1))
              in case (if \<not> unchangedSaplingFlag
                       then (case merge_note_data (mapSaplingNoteData wtx1) (mapSaplingNoteData wtxIn) of
                               Inl e \<Rightarrow> Inl e
                             | Inr tmp \<Rightarrow> Inr (wtx1\<lparr>mapSaplingNoteData := tmp\<rparr>))
                       else Inr wtx1) of
                   Inl e \<Rightarrow> (Inl e, wtx1)
                 | Inr wtx2 \<Rightarrow> (Inr (\<not> unchangedSproutFlag \<or> \<not> unchangedSaplingFlag), wtx2)))"

text \<open>The witnesses a note map caches for an outpoint, when it caches any.\<close>

definition cached_witnesses :: "('k \<times> NoteData) list \<Rightarrow> 'k \<Rightarrow> IncrementalWitness list option" where
  "cached_witnesses notes op =
     (case map_of notes op of
        None \<Rightarrow> None
      | Some nd \<Rightarrow> if witnesses nd = [] then None else Some (witnesses nd))"

lemma merge_note_data_other:
  "merge_note_data stored tmp = Inr tmp' \<Longrightarrow> k \<notin> fst ` set stored \<Longrightarrow> map_of tmp' k = map_of tmp k"
proof (induction stored arbitrary: tmp)
  case Nil
  then show ?case by simp
next
  case (Cons nd rest)
  from Cons.prems(2) have k: "k \<noteq> fst nd" "k \<notin> fst ` set rest" by auto
  from Cons.prems(1) obtain tmp2 where r: "merge_note_data rest tmp2 = Inr tmp'"
    and t: "map_of tmp2 k = map_of tmp k"
    using k(1) by (auto simp: Let_def map_of_map_entry split: if_splits)
  from Cons.IH[OF r k(2)] t show ?case by simp
qed

lemma merge_note_data_keeps:
  assumes "merge_note_data stored tmp = Inr tmp'" and "distinct (map fst stored)"
    and "cached_witnesses stored op = Some ws" and "map_of tmp op \<noteq> None"
  shows "cached_witnesses tmp' op = Some ws"
  using assms
proof (induction stored arbitrary: tmp)
  case Nil
  then show ?case by (simp add: cached_witnesses_def)
next
  case (Cons nd rest)
  from Cons.prems(2) have d: "fst nd \<notin> fst ` set rest" "distinct (map fst rest)" by auto
  show ?case
  proof (cases "fst nd = op")
    case True
    with Cons.prems(3) have ws: "witnesses (snd nd) = ws" "ws \<noteq> []"
      by (auto simp: cached_witnesses_def split: if_splits)
    from Cons.prems(1,4) True ws obtain tmp2 where r: "merge_note_data rest tmp2 = Inr tmp'"
      and t: "cached_witnesses tmp2 op = Some ws"
      by (auto simp: Let_def map_of_map_entry cached_witnesses_def split: if_splits option.splits)
    from merge_note_data_other[OF r] d(1) True have "map_of tmp' op = map_of tmp2 op" by simp
    with t show ?thesis by (simp add: cached_witnesses_def)
  next
    case False
    with Cons.prems(3) have c: "cached_witnesses rest op = Some ws"
      by (cases nd) (auto simp: cached_witnesses_def)
    from Cons.prems(1,4) False obtain tmp2 where r: "merge_note_data rest tmp2 = Inr tmp'"
      and t: "map_of tmp2 op \<noteq> None"
      by (auto simp: Let_def map_of_map_entry split: if_splits)
    from Cons.IH[OF r d(2) c t] show ?thesis .
  qed
qed

lemma UpdatedNoteData_sprout:
  "mapSproutNoteData (snd (UpdatedNoteData eqS eqA wtxIn wtx)) = mapSproutNoteData wtx \<or>
   merge_note_data (mapSproutNoteData wtx) (mapSproutNoteData wtxIn) =
     Inr (mapSproutNoteData (snd (UpdatedNoteData eqS eqA wtxIn wtx)))"
proof (cases "mapSproutNoteData wtxIn = [] \<or>
    note_map_eq eqS (mapSproutNoteData wtxIn) (mapSproutNoteData wtx)")
  case True
  then show ?thesis
    by (cases "merge_note_data (mapSaplingNoteData wtx) (mapSaplingNoteData wtxIn)")
       (simp_all add: UpdatedNoteData_def)
next
  case False
  show ?thesis
  proof (cases "merge_note_data (mapSproutNoteData wtx) (mapSproutNoteData wtxIn)")
    case (Inl e)
    with False show ?thesis by (simp add: UpdatedNoteData_def)
  next
    case (Inr tmp)
    with False show ?thesis
      by (cases "merge_note_data (mapSaplingNoteData wtx) (mapSaplingNoteData wtxIn)")
         (simp_all add: UpdatedNoteData_def)
  qed
qed

lemma UpdatedNoteData_sapling:
  "mapSaplingNoteData (snd (UpdatedNoteData eqS eqA wtxIn wtx)) = mapSaplingNoteData wtx \<or>
   merge_note_data (mapSaplingNoteData wtx) (mapSaplingNoteData wtxIn) =
     Inr (mapSaplingNoteData (snd (UpdatedNoteData eqS eqA wtxIn wtx)))"
proof (cases "merge_note_data (mapSaplingNoteData wtx) (mapSaplingNoteData wtxIn)")
  case (Inl e)
  then show ?thesis
    by (cases "merge_note_data (mapSproutNoteData wtx) (mapSproutNoteData wtxIn)")
       (simp_all add: UpdatedNoteData_def)
next
  case (Inr tmp)
  then show ?thesis
    by (cases "merge_note_data (mapSproutNoteData wtx) (mapSproutNoteData wtxIn)")
       (simp_all add: UpdatedNoteData_def)
qed

text \<open>
  The merge keeps the witnesses that the stored transaction caches, whether the call
  returns or throws, and whatever the comparison of note data is.
\<close>

lemma UpdatedNoteData_keeps:
  assumes "distinct (map fst (mapSproutNoteData wtx))" and "distinct (map fst (mapSaplingNoteData wtx))"
  shows "(cached_witnesses (mapSproutNoteData wtx) op = Some ws \<and>
          map_of (mapSproutNoteData wtxIn) op \<noteq> None \<longrightarrow>
          cached_witnesses (mapSproutNoteData (snd (UpdatedNoteData SproutNoteDataEq SaplingNoteDataEq wtxIn wtx))) op = Some ws) \<and>
         (cached_witnesses (mapSaplingNoteData wtx) sop = Some sws \<and>
          map_of (mapSaplingNoteData wtxIn) sop \<noteq> None \<longrightarrow>
          cached_witnesses (mapSaplingNoteData (snd (UpdatedNoteData SproutNoteDataEq SaplingNoteDataEq wtxIn wtx))) sop = Some sws)"
proof (intro conjI impI)
  assume a: "cached_witnesses (mapSproutNoteData wtx) op = Some ws \<and>
          map_of (mapSproutNoteData wtxIn) op \<noteq> None"
  from UpdatedNoteData_sprout[of SproutNoteDataEq SaplingNoteDataEq wtxIn wtx]
  show "cached_witnesses (mapSproutNoteData (snd (UpdatedNoteData SproutNoteDataEq SaplingNoteDataEq wtxIn wtx))) op = Some ws"
  proof
    assume "mapSproutNoteData (snd (UpdatedNoteData SproutNoteDataEq SaplingNoteDataEq wtxIn wtx)) = mapSproutNoteData wtx"
    with a show ?thesis by simp
  next
    assume "merge_note_data (mapSproutNoteData wtx) (mapSproutNoteData wtxIn) =
      Inr (mapSproutNoteData (snd (UpdatedNoteData SproutNoteDataEq SaplingNoteDataEq wtxIn wtx)))"
    from merge_note_data_keeps[OF this assms(1)] a show ?thesis by blast
  qed
next
  assume a: "cached_witnesses (mapSaplingNoteData wtx) sop = Some sws \<and>
          map_of (mapSaplingNoteData wtxIn) sop \<noteq> None"
  from UpdatedNoteData_sapling[of SproutNoteDataEq SaplingNoteDataEq wtxIn wtx]
  show "cached_witnesses (mapSaplingNoteData (snd (UpdatedNoteData SproutNoteDataEq SaplingNoteDataEq wtxIn wtx))) sop = Some sws"
  proof
    assume "mapSaplingNoteData (snd (UpdatedNoteData SproutNoteDataEq SaplingNoteDataEq wtxIn wtx)) = mapSaplingNoteData wtx"
    with a show ?thesis by simp
  next
    assume "merge_note_data (mapSaplingNoteData wtx) (mapSaplingNoteData wtxIn) =
      Inr (mapSaplingNoteData (snd (UpdatedNoteData SproutNoteDataEq SaplingNoteDataEq wtxIn wtx)))"
    from merge_note_data_keeps[OF this assms(2)] a show ?thesis by blast
  qed
qed

text \<open>
  A stored transaction whose Sapling note caches two witnesses, and an incoming copy of it
  with fresh note data.
\<close>

definition ex_stored :: CWalletTx where
  "ex_stored = (ex_wtx 1 [] CONFIRMED 100)\<lparr>mapSaplingNoteData :=
     [(SaplingOutPoint 1 0, ex_note (Some 8) [IncrementalWitness [6] [], IncrementalWitness [4] []] 10)]\<rparr>"

definition ex_incoming :: CWalletTx where
  "ex_incoming = (ex_wtx 1 [] CONFIRMED 100)\<lparr>mapSaplingNoteData :=
     [(SaplingOutPoint 1 0, ex_note None [] (- 1))]\<rparr>"

subsection \<open>Order positions: \<^verbatim>\<open>CWallet::IncOrderPosNext\<close>\<close>

text \<open>
  \<open>nOrderPosNext\<close> is an \<^verbatim>\<open>int64_t\<close>. The function checks no range: it returns the
  counter and increments it, and at the largest value \<open>2\<^sup>6\<^sup>3 - 1\<close> the increment wraps around
  to the smallest one. \<open>wrap64\<close> is the value of a 64-bit signed integer after an
  operation. The new value is written to the database.
\<close>

definition wrap64 :: "int \<Rightarrow> int" where
  "wrap64 x = (x + 2 ^ 63) mod 2 ^ 64 - 2 ^ 63"

definition IncOrderPosNext :: "CWallet \<Rightarrow> int \<times> CWallet" where
  "IncOrderPosNext w =
     (let nRet = nOrderPosNext w;
          w1 = w\<lparr>nOrderPosNext := wrap64 (nOrderPosNext w + 1)\<rparr>
      in (nRet, w1\<lparr>db := db w1 @ [WriteOrderPosNext (nOrderPosNext w1)]\<rparr>))"

subsection \<open>The spend index: \<^verbatim>\<open>CWallet::AddToSpends\<close>\<close>

text \<open>
  \<^verbatim>\<open>CWallet::SyncMetaData\<close> over a range of the spend index. The first loop finds the
  transaction of the range with the smallest order position below \<^verbatim>\<open>INT_MAX\<close>
  (\<open>nMinOrderPos\<close> is an \<^verbatim>\<open>int\<close>: the assignment narrows the 64-bit position to 32 bits);
  \<^verbatim>\<open>mapWallet.at\<close> throws for an id that is not in the wallet. The second loop copies its
  metadata to the equivalent transactions of the range. Of the metadata the model holds
  \<open>fFromMe\<close>. \<^verbatim>\<open>CWalletTx::IsEquivalentTo\<close> compares the two payloads with the signatures
  of their inputs erased; the payload of the model holds no signatures, and
  \<open>IsEquivalentTo\<close> is a parameter.
\<close>

definition narrow_int :: "int \<Rightarrow> int" where
  "narrow_int x = (x + 2 ^ 31) mod 2 ^ 32 - 2 ^ 31"

fun find_copyFrom ::
  "(uint256 \<times> CWalletTx) list \<Rightarrow> ('k \<times> uint256) list \<Rightarrow> int \<Rightarrow> uint256 option \<Rightarrow> error + uint256 option" where
  "find_copyFrom mw [] nMinOrderPos copyFrom = Inr copyFrom"
| "find_copyFrom mw (it # rest) nMinOrderPos copyFrom =
     (case map_of mw (snd it) of
        None \<Rightarrow> Inl OutOfRange
      | Some wtx \<Rightarrow>
          if nOrderPos wtx < nMinOrderPos
          then find_copyFrom mw rest (narrow_int (nOrderPos wtx)) (Some (snd it))
          else find_copyFrom mw rest nMinOrderPos copyFrom)"

definition copy_metadata ::
  "(CWalletTx \<Rightarrow> CWalletTx \<Rightarrow> bool) \<Rightarrow> uint256 \<Rightarrow> uint256 \<Rightarrow> CWallet \<Rightarrow> error + CWallet" where
  "copy_metadata IsEquivalentTo copyFrom hash w =
     (case (map_of (mapWallet w) copyFrom, map_of (mapWallet w) hash) of
        (Some fromTx, Some toTx) \<Rightarrow>
          if copyFrom = hash then Inr w
          else if \<not> IsEquivalentTo fromTx toTx then Inr w
          else Inr (w\<lparr>mapWallet := AList.map_entry hash (\<lambda>copyTo. copyTo\<lparr>fFromMe := fFromMe fromTx\<rparr>)
                          (mapWallet w)\<rparr>)
      | _ \<Rightarrow> Inl OutOfRange)"

definition SyncMetaData ::
  "(CWalletTx \<Rightarrow> CWalletTx \<Rightarrow> bool) \<Rightarrow> ('k \<times> uint256) list \<Rightarrow> CWallet \<Rightarrow> error + CWallet" where
  "SyncMetaData IsEquivalentTo its w =
     (case find_copyFrom (mapWallet w) its (2 ^ 31 - 1) None of
        Inl e \<Rightarrow> Inl e
      | Inr None \<Rightarrow> Inr w
      | Inr (Some copyFrom) \<Rightarrow>
          for_each (\<lambda>it. copy_metadata IsEquivalentTo copyFrom (snd it)) its w)"

definition AddToTransparentSpends ::
  "(CWalletTx \<Rightarrow> CWalletTx \<Rightarrow> bool) \<Rightarrow> uint256 \<Rightarrow> COutPoint \<Rightarrow> CWallet \<Rightarrow> error + CWallet" where
  "AddToTransparentSpends IsEquivalentTo wtxid outpoint w =
     (let w1 = w\<lparr>mapTxSpends := multimap_insert outpoint wtxid (mapTxSpends w)\<rparr>;
          w2 = w1\<lparr>setLockedCoins := removeAll outpoint (setLockedCoins w1)\<rparr>
      in SyncMetaData IsEquivalentTo (equal_range outpoint (mapTxSpends w2)) w2)"

definition AddToSproutSpends ::
  "(CWalletTx \<Rightarrow> CWalletTx \<Rightarrow> bool) \<Rightarrow> uint256 \<Rightarrow> uint256 \<Rightarrow> CWallet \<Rightarrow> error + CWallet" where
  "AddToSproutSpends IsEquivalentTo wtxid nf w =
     (let w1 = w\<lparr>mapTxSproutNullifiers := multimap_insert nf wtxid (mapTxSproutNullifiers w)\<rparr>
      in SyncMetaData IsEquivalentTo (equal_range nf (mapTxSproutNullifiers w1)) w1)"

definition AddToSaplingSpends ::
  "(CWalletTx \<Rightarrow> CWalletTx \<Rightarrow> bool) \<Rightarrow> uint256 \<Rightarrow> uint256 \<Rightarrow> CWallet \<Rightarrow> error + CWallet" where
  "AddToSaplingSpends IsEquivalentTo wtxid nf w =
     (let w1 = w\<lparr>mapTxSaplingNullifiers := multimap_insert nf wtxid (mapTxSaplingNullifiers w)\<rparr>
      in SyncMetaData IsEquivalentTo (equal_range nf (mapTxSaplingNullifiers w1)) w1)"

definition AddToSpends ::
  "(CWalletTx \<Rightarrow> CWalletTx \<Rightarrow> bool) \<Rightarrow> uint256 \<Rightarrow> CWallet \<Rightarrow> error + CWallet" where
  "AddToSpends IsEquivalentTo wtxid w =
     (case map_of (mapWallet w) wtxid of
        None \<Rightarrow> Inl AssertionFailed
      | Some thisTx \<Rightarrow>
          if IsCoinBase (tx thisTx) then Inr w
          else
            (case for_each (AddToTransparentSpends IsEquivalentTo wtxid) (vin (tx thisTx)) w of
               Inl e \<Rightarrow> Inl e
             | Inr w1 \<Rightarrow>
                 (case for_each (AddToSproutSpends IsEquivalentTo wtxid)
                         (concat (map nullifiers (vJoinSplit (tx thisTx)))) w1 of
                    Inl e \<Rightarrow> Inl e
                  | Inr w2 \<Rightarrow>
                      for_each (AddToSaplingSpends IsEquivalentTo wtxid) (vShieldedSpend (tx thisTx)) w2)))"

subsection \<open>\<^verbatim>\<open>CWallet::AddToWallet\<close>\<close>

definition note_nullifiers :: "('k \<times> NoteData) list \<Rightarrow> (uint256 \<times> 'k) list \<Rightarrow> (uint256 \<times> 'k) list" where
  "note_nullifiers notes m =
     fold (\<lambda>item m. case nullifier (snd item) of None \<Rightarrow> m | Some nf \<Rightarrow> map_assign nf (fst item) m)
       notes m"

definition UpdateNullifierNoteMapWithTx :: "CWalletTx \<Rightarrow> CWallet \<Rightarrow> CWallet" where
  "UpdateNullifierNoteMapWithTx wtx w =
     w\<lparr>mapSproutNullifiersToNotes := note_nullifiers (mapSproutNoteData wtx) (mapSproutNullifiersToNotes w),
       mapSaplingNullifiersToNotes := note_nullifiers (mapSaplingNoteData wtx) (mapSaplingNullifiersToNotes w)\<rparr>"

text \<open>
  What a call reports: its return value, and the two flags that it logs as "new" and
  "update" and that decide whether the transaction is written to the database.
\<close>

record AddResult =
  ret :: bool
  fInsertedNew :: bool
  fUpdated :: bool

text \<open>
  The update of a transaction that the wallet already holds, from the incoming copy:
  the stored transaction afterwards and whether anything changed.
\<close>

definition update_existing ::
  "(NoteData \<Rightarrow> NoteData \<Rightarrow> bool) \<Rightarrow> (NoteData \<Rightarrow> NoteData \<Rightarrow> bool) \<Rightarrow>
   CWalletTx \<Rightarrow> CWalletTx \<Rightarrow> error + (bool \<times> CWalletTx)" where
  "update_existing SproutNoteDataEq SaplingNoteDataEq wtxIn wtx =
     (case (if status (m_confirm wtxIn) \<noteq> status (m_confirm wtx)
            then Inr (True, wtx\<lparr>m_confirm := \<lparr>status = status (m_confirm wtxIn),
                                   hashBlock = hashBlock (m_confirm wtxIn),
                                   nIndex = nIndex (m_confirm wtxIn)\<rparr>\<rparr>)
            else if nIndex (m_confirm wtx) = nIndex (m_confirm wtxIn) \<and>
                    hashBlock (m_confirm wtx) = hashBlock (m_confirm wtxIn)
                 then Inr (False, wtx)
                 else Inl AssertionFailed) of
        Inl e \<Rightarrow> Inl e
      | Inr (fUpdated1, wtx1) \<Rightarrow>
          (case UpdatedNoteData SproutNoteDataEq SaplingNoteDataEq wtxIn wtx1 of
             (Inl e, wtx2) \<Rightarrow> Inl e
           | (Inr changed, wtx2) \<Rightarrow>
               (let fUpdated2 = (fUpdated1 \<or> changed);
                    (fUpdated3, wtx3) =
                      (if fFromMe wtxIn \<and> fFromMe wtxIn \<noteq> fFromMe wtx2
                       then (True, wtx2\<lparr>fFromMe := fFromMe wtxIn\<rparr>) else (fUpdated2, wtx2))
                in if HasWitness (tx wtxIn) \<and> \<not> HasWitness (tx wtx3)
                   then Inr (True, wtx3\<lparr>tx := tx wtxIn\<rparr>)
                   else Inr (fUpdated3, wtx3))))"

text \<open>
  The block of \<open>AddToWallet\<close> for a transaction that was inserted: it gets the time of
  receipt and the next order position, is entered in \<open>wtxOrdered\<close>, and its spends are
  registered. \<open>now\<close> is the adjusted time of the chain.
\<close>

definition insert_new ::
  "(CWalletTx \<Rightarrow> CWalletTx \<Rightarrow> bool) \<Rightarrow> int \<Rightarrow> uint256 \<Rightarrow> CWallet \<Rightarrow> error + CWallet" where
  "insert_new IsEquivalentTo now hash w =
     (case IncOrderPosNext w of
        (pos, w1) \<Rightarrow>
          (let w2 = w1\<lparr>mapWallet := AList.map_entry hash
                        (\<lambda>wtx. wtx\<lparr>nTimeReceived := now, nOrderPos := pos\<rparr>) (mapWallet w1)\<rparr>;
               w3 = w2\<lparr>wtxOrdered := multimap_insert pos hash (wtxOrdered w2)\<rparr>
           in AddToSpends IsEquivalentTo hash w3))"

text \<open>
  The end of \<open>AddToWallet\<close>: a new or updated transaction is written to the database
  (\<open>write_ok\<close> says whether \<^verbatim>\<open>batch.WriteTx\<close> succeeds; the call returns false when it
  does not), and the cached amounts of the transaction are reset.
\<close>

definition write_and_mark :: "bool \<Rightarrow> uint256 \<Rightarrow> bool \<Rightarrow> bool \<Rightarrow> CWallet \<Rightarrow> AddResult \<times> CWallet" where
  "write_and_mark write_ok hash isNew upd w =
     (if (isNew \<or> upd) \<and> \<not> write_ok
      then (\<lparr>ret = False, fInsertedNew = isNew, fUpdated = upd\<rparr>, w)
      else
        (let w1 = (if isNew \<or> upd
                   then w\<lparr>db := db w @ (case map_of (mapWallet w) hash of
                                           None \<Rightarrow> [] | Some wtx \<Rightarrow> [WriteTx wtx])\<rparr>
                   else w)
         in (\<lparr>ret = True, fInsertedNew = isNew, fUpdated = upd\<rparr>,
             w1\<lparr>mapWallet := AList.map_entry hash MarkDirty (mapWallet w1)\<rparr>)))"

text \<open>
  \<open>AddToWallet\<close>. The bookkeeping of used destinations (which writes address book data
  only), the smart time of the transaction, the notification of the user interface and
  the \<^verbatim>\<open>-walletnotify\<close> command are outside the model.
\<close>

definition AddToWallet ::
  "(CWalletTx \<Rightarrow> CWalletTx \<Rightarrow> bool) \<Rightarrow> (NoteData \<Rightarrow> NoteData \<Rightarrow> bool) \<Rightarrow>
   (NoteData \<Rightarrow> NoteData \<Rightarrow> bool) \<Rightarrow> int \<Rightarrow> bool \<Rightarrow> CWalletTx \<Rightarrow> CWallet \<Rightarrow>
   error + (AddResult \<times> CWallet)" where
  "AddToWallet IsEquivalentTo SproutNoteDataEq SaplingNoteDataEq now write_ok wtxIn w =
     (let hash = GetHash (tx wtxIn);
          isNew = (map_of (mapWallet w) hash = None);
          wtx = (case map_of (mapWallet w) hash of None \<Rightarrow> wtxIn | Some stored \<Rightarrow> stored);
          w1 = w\<lparr>mapWallet := map_insert hash wtxIn (mapWallet w)\<rparr>;
          w2 = UpdateNullifierNoteMapWithTx wtx w1
      in case (if isNew then
                 (case insert_new IsEquivalentTo now hash w2 of
                    Inl e \<Rightarrow> Inl e
                  | Inr w3 \<Rightarrow> Inr (False, w3))
               else
                 (case update_existing SproutNoteDataEq SaplingNoteDataEq wtxIn wtx of
                    Inl e \<Rightarrow> Inl e
                  | Inr (upd, wtx') \<Rightarrow>
                      Inr (upd, w2\<lparr>mapWallet := AList.map_entry hash (\<lambda>_. wtx') (mapWallet w2)\<rparr>))) of
           Inl e \<Rightarrow> Inl e
         | Inr (upd, w4) \<Rightarrow> Inr (write_and_mark write_ok hash isNew upd w4))"

text \<open>A run of calls, each with its time and its database outcome; it collects the order
  positions given to the transactions that were inserted.\<close>

fun AddToWallet_calls ::
  "(CWalletTx \<Rightarrow> CWalletTx \<Rightarrow> bool) \<Rightarrow> (NoteData \<Rightarrow> NoteData \<Rightarrow> bool) \<Rightarrow>
   (NoteData \<Rightarrow> NoteData \<Rightarrow> bool) \<Rightarrow> (int \<times> bool \<times> CWalletTx) list \<Rightarrow> CWallet \<Rightarrow>
   error + (int list \<times> CWallet)" where
  "AddToWallet_calls IsEquivalentTo SproutNoteDataEq SaplingNoteDataEq [] w = Inr ([], w)"
| "AddToWallet_calls IsEquivalentTo SproutNoteDataEq SaplingNoteDataEq (call # rest) w =
     (case AddToWallet IsEquivalentTo SproutNoteDataEq SaplingNoteDataEq
             (fst call) (fst (snd call)) (snd (snd call)) w of
        Inl e \<Rightarrow> Inl e
      | Inr (res, w1) \<Rightarrow>
          (case AddToWallet_calls IsEquivalentTo SproutNoteDataEq SaplingNoteDataEq rest w1 of
             Inl e \<Rightarrow> Inl e
           | Inr (ps, w2) \<Rightarrow>
               Inr ((if fInsertedNew res
                     then (case map_of (mapWallet w1) (GetHash (tx (snd (snd call)))) of
                             None \<Rightarrow> [] | Some wtx \<Rightarrow> [nOrderPos wtx])
                     else []) @ ps, w2)))"

text \<open>The three multimaps of the spend index.\<close>

definition spend_index ::
  "CWallet \<Rightarrow> (COutPoint \<times> uint256) list \<times> (uint256 \<times> uint256) list \<times> (uint256 \<times> uint256) list" where
  "spend_index w = (mapTxSpends w, mapTxSproutNullifiers w, mapTxSaplingNullifiers w)"

text \<open>
  An incoming copy from which \<open>AddToWallet\<close> takes nothing: it has the payload and the
  confirmation of the stored transaction, its note data are empty or compare equal to
  those stored, and it does not newly mark the transaction as the wallet's own.
\<close>

definition same_as_stored ::
  "(NoteData \<Rightarrow> NoteData \<Rightarrow> bool) \<Rightarrow> (NoteData \<Rightarrow> NoteData \<Rightarrow> bool) \<Rightarrow> CWalletTx \<Rightarrow> CWalletTx \<Rightarrow> bool" where
  "same_as_stored SproutNoteDataEq SaplingNoteDataEq wtxIn wtx =
     (tx wtxIn = tx wtx \<and> m_confirm wtxIn = m_confirm wtx \<and>
      (mapSproutNoteData wtxIn = [] \<or>
       note_map_eq SproutNoteDataEq (mapSproutNoteData wtxIn) (mapSproutNoteData wtx)) \<and>
      (mapSaplingNoteData wtxIn = [] \<or>
       note_map_eq SaplingNoteDataEq (mapSaplingNoteData wtxIn) (mapSaplingNoteData wtx)) \<and>
      (fFromMe wtxIn \<longrightarrow> fFromMe wtx))"

lemma map_insert_present:
  "sorted (map fst xs) \<Longrightarrow> map_of xs k = Some v \<Longrightarrow> map_insert k v' xs = xs"
proof (induction xs)
  case Nil
  then show ?case by simp
next
  case (Cons e xs)
  show ?case
  proof (cases "k < fst e")
    case True
    with Cons.prems(1) have "\<forall>x \<in> set (e # xs). k < fst x" by auto
    then have "k \<notin> fst ` set (e # xs)" by auto
    then have "map_of (e # xs) k = None" by (simp only: map_of_eq_None_iff) simp
    with Cons.prems(2) show ?thesis by simp
  next
    case False
    with Cons show ?thesis by (cases e) (auto split: if_splits)
  qed
qed

lemma map_of_map_insert_key: "map_of (map_insert k v xs) k \<noteq> None"
  by (induction xs) auto

lemma UpdatedNoteData_unchanged:
  assumes "mapSproutNoteData wtxIn = [] \<or>
      note_map_eq eqS (mapSproutNoteData wtxIn) (mapSproutNoteData wtx)"
    and "mapSaplingNoteData wtxIn = [] \<or>
      note_map_eq eqA (mapSaplingNoteData wtxIn) (mapSaplingNoteData wtx)"
  shows "UpdatedNoteData eqS eqA wtxIn wtx = (Inr False, wtx)"
  using assms by (simp add: UpdatedNoteData_def)

lemma update_existing_same:
  assumes "same_as_stored eqS eqA wtxIn wtx"
  shows "update_existing eqS eqA wtxIn wtx = Inr (False, wtx)"
proof -
  from assms have u: "UpdatedNoteData eqS eqA wtxIn wtx = (Inr False, wtx)"
    by (intro UpdatedNoteData_unchanged) (simp_all add: same_as_stored_def)
  from assms have "status (m_confirm wtxIn) = status (m_confirm wtx)"
    "nIndex (m_confirm wtx) = nIndex (m_confirm wtxIn)"
    "hashBlock (m_confirm wtx) = hashBlock (m_confirm wtxIn)"
    "fFromMe wtxIn \<longrightarrow> fFromMe wtx" "HasWitness (tx wtxIn) = HasWitness (tx wtx)"
    by (simp_all add: same_as_stored_def)
  then show ?thesis
    by (auto simp: update_existing_def u)
qed

lemma spend_index_write_and_mark:
  "spend_index (snd (write_and_mark ok h isNew upd w)) = spend_index w"
  by (simp add: write_and_mark_def spend_index_def Let_def)

lemma AddToWallet_existing:
  assumes "sorted (map fst (mapWallet w))" and "map_of (mapWallet w) (GetHash (tx wtxIn)) = Some wtx"
  shows "AddToWallet IsEq eqS eqA now ok wtxIn w =
     (case update_existing eqS eqA wtxIn wtx of
        Inl e \<Rightarrow> Inl e
      | Inr (upd, wtx') \<Rightarrow>
          Inr (write_and_mark ok (GetHash (tx wtxIn)) False upd
                 ((UpdateNullifierNoteMapWithTx wtx w)\<lparr>mapWallet :=
                     AList.map_entry (GetHash (tx wtxIn)) (\<lambda>_. wtx')
                       (mapWallet (UpdateNullifierNoteMapWithTx wtx w))\<rparr>)))"
proof -
  from assms have "map_insert (GetHash (tx wtxIn)) wtxIn (mapWallet w) = mapWallet w"
    by (rule map_insert_present)
  then have "w\<lparr>mapWallet := map_insert (GetHash (tx wtxIn)) wtxIn (mapWallet w)\<rparr> = w" by simp
  with assms(2) show ?thesis
    by (simp add: AddToWallet_def Let_def split: sum.splits prod.splits)
qed

text \<open>
  Claim C6, as amended. When the wallet already holds a transaction with the hash of the
  incoming one, \<open>AddToWallet\<close> never inserts and leaves the spend index as it is. When
  moreover the incoming copy has the payload and the confirmation (status, block hash and
  index) of the stored transaction, note data that are empty or equal to those stored,
  and does not newly set \<open>fFromMe\<close>, the call reports neither an insertion nor an update
  and writes nothing to the database. Note data are compared with the \<^verbatim>\<open>operator==\<close> of
  their classes. The first hypothesis says that \<open>mapWallet\<close> is in key order.
\<close>

theorem AddToWallet_again:
  assumes "sorted (map fst (mapWallet w))" and "map_of (mapWallet w) (GetHash (tx wtxIn)) = Some wtx"
  shows "(\<forall>res w'. AddToWallet IsEquivalentTo SproutNoteDataEq SaplingNoteDataEq now write_ok wtxIn w = Inr (res, w') \<longrightarrow>
            \<not> fInsertedNew res \<and> spend_index w' = spend_index w) \<and>
         (same_as_stored SproutNoteDataEq SaplingNoteDataEq wtxIn wtx \<longrightarrow>
            (\<exists>w'. AddToWallet IsEquivalentTo SproutNoteDataEq SaplingNoteDataEq now write_ok wtxIn w =
                     Inr (\<lparr>ret = True, fInsertedNew = False, fUpdated = False\<rparr>, w') \<and>
                   spend_index w' = spend_index w \<and> db w' = db w))"
proof (intro conjI allI impI)
  fix res w'
  assume r: "AddToWallet IsEquivalentTo SproutNoteDataEq SaplingNoteDataEq now write_ok wtxIn w = Inr (res, w')"
  from r obtain upd wtx' where
    "write_and_mark write_ok (GetHash (tx wtxIn)) False upd
                 ((UpdateNullifierNoteMapWithTx wtx w)\<lparr>mapWallet :=
                     AList.map_entry (GetHash (tx wtxIn)) (\<lambda>_. wtx')
                       (mapWallet (UpdateNullifierNoteMapWithTx wtx w))\<rparr>) = (res, w')"
    unfolding AddToWallet_existing[OF assms] by (auto split: sum.splits prod.splits)
  then have res: "res = fst (write_and_mark write_ok (GetHash (tx wtxIn)) False upd
                 ((UpdateNullifierNoteMapWithTx wtx w)\<lparr>mapWallet :=
                     AList.map_entry (GetHash (tx wtxIn)) (\<lambda>_. wtx')
                       (mapWallet (UpdateNullifierNoteMapWithTx wtx w))\<rparr>))"
    and w': "w' = snd (write_and_mark write_ok (GetHash (tx wtxIn)) False upd
                 ((UpdateNullifierNoteMapWithTx wtx w)\<lparr>mapWallet :=
                     AList.map_entry (GetHash (tx wtxIn)) (\<lambda>_. wtx')
                       (mapWallet (UpdateNullifierNoteMapWithTx wtx w))\<rparr>))"
    by (metis fst_conv, metis snd_conv)
  show "\<not> fInsertedNew res" unfolding res by (simp add: write_and_mark_def Let_def)
  show "spend_index w' = spend_index w"
    unfolding w' spend_index_write_and_mark
    by (simp add: spend_index_def UpdateNullifierNoteMapWithTx_def)
next
  assume "same_as_stored SproutNoteDataEq SaplingNoteDataEq wtxIn wtx"
  then have "update_existing SproutNoteDataEq SaplingNoteDataEq wtxIn wtx = Inr (False, wtx)"
    by (rule update_existing_same)
  then show "\<exists>w'. AddToWallet IsEquivalentTo SproutNoteDataEq SaplingNoteDataEq now write_ok wtxIn w =
                     Inr (\<lparr>ret = True, fInsertedNew = False, fUpdated = False\<rparr>, w') \<and>
                   spend_index w' = spend_index w \<and> db w' = db w"
    unfolding AddToWallet_existing[OF assms]
    by (simp add: write_and_mark_def spend_index_def UpdateNullifierNoteMapWithTx_def)
qed

text \<open>A wallet that holds the stored transaction.\<close>

definition ex_note_wallet :: CWallet where
  "ex_note_wallet = ex_wallet [(1, ex_stored)] []"

text \<open>An instance of C6: the stored transaction itself is added again.\<close>

theorem AddToWallet_again_witness:
  "same_as_stored (=) (=) ex_stored ex_stored \<and>
   (\<exists>w'. AddToWallet (\<lambda>a b. True) (=) (=) 5 True ex_stored ex_note_wallet =
            Inr (\<lparr>ret = True, fInsertedNew = False, fUpdated = False\<rparr>, w') \<and>
          spend_index w' = spend_index ex_note_wallet \<and> db w' = db ex_note_wallet)"
proof -
  have s: "sorted (map fst (mapWallet ex_note_wallet))"
    by (simp add: ex_note_wallet_def ex_wallet_def)
  have m: "map_of (mapWallet ex_note_wallet) (GetHash (tx ex_stored)) = Some ex_stored"
    by (simp add: ex_note_wallet_def ex_wallet_def ex_stored_def ex_wtx_def ex_tx_def)
  have e: "same_as_stored (=) (=) ex_stored ex_stored"
    by (simp add: same_as_stored_def note_map_eq_def list_all2_same)
  from AddToWallet_again[OF s m, of "\<lambda>a b. True" "(=)" "(=)" 5 True] e show ?thesis by blast
qed

text \<open>
  Claim C6 as stated fails for an incoming copy that has the payload and the confirmation
  of the stored transaction and marks it as the wallet's own: the call reports an update.
\<close>

theorem AddToWallet_updated_counterexample:
  "tx (ex_stored\<lparr>fFromMe := True\<rparr>) = tx ex_stored \<and>
   m_confirm (ex_stored\<lparr>fFromMe := True\<rparr>) = m_confirm ex_stored \<and>
   map_of (mapWallet ex_note_wallet) (GetHash (tx (ex_stored\<lparr>fFromMe := True\<rparr>))) = Some ex_stored \<and>
   (\<exists>w'. AddToWallet (\<lambda>a b. True) (=) (=) 5 True (ex_stored\<lparr>fFromMe := True\<rparr>) ex_note_wallet =
            Inr (\<lparr>ret = True, fInsertedNew = False, fUpdated = True\<rparr>, w'))"
  by (simp add: AddToWallet_def update_existing_def UpdatedNoteData_def note_map_eq_def
      write_and_mark_def UpdateNullifierNoteMapWithTx_def note_nullifiers_def
      ex_note_wallet_def ex_wallet_def ex_stored_def ex_wtx_def ex_tx_def ex_note_def)

lemma update_existing_notes:
  assumes "update_existing eqS eqA wtxIn wtx = Inr (upd, wtx2)"
  shows "\<exists>wtx1. mapSproutNoteData wtx1 = mapSproutNoteData wtx \<and>
           mapSaplingNoteData wtx1 = mapSaplingNoteData wtx \<and>
           mapSproutNoteData wtx2 = mapSproutNoteData (snd (UpdatedNoteData eqS eqA wtxIn wtx1)) \<and>
           mapSaplingNoteData wtx2 = mapSaplingNoteData (snd (UpdatedNoteData eqS eqA wtxIn wtx1))"
proof -
  define wtx1 where "wtx1 = (if status (m_confirm wtxIn) \<noteq> status (m_confirm wtx)
      then wtx\<lparr>m_confirm := \<lparr>status = status (m_confirm wtxIn),
                             hashBlock = hashBlock (m_confirm wtxIn),
                             nIndex = nIndex (m_confirm wtxIn)\<rparr>\<rparr>
      else wtx)"
  have n: "mapSproutNoteData wtx1 = mapSproutNoteData wtx" "mapSaplingNoteData wtx1 = mapSaplingNoteData wtx"
    by (simp_all add: wtx1_def)
  obtain r wtxU where u: "UpdatedNoteData eqS eqA wtxIn wtx1 = (r, wtxU)"
    by (cases "UpdatedNoteData eqS eqA wtxIn wtx1")
  from assms u have "mapSproutNoteData wtx2 = mapSproutNoteData wtxU \<and>
      mapSaplingNoteData wtx2 = mapSaplingNoteData wtxU"
    by (auto simp: update_existing_def wtx1_def Let_def split: if_splits sum.splits)
  with n u show ?thesis by auto
qed

lemma write_and_mark_notes:
  assumes "map_of (mapWallet w) h = Some x"
  shows "\<exists>y. map_of (mapWallet (snd (write_and_mark ok h isNew upd w))) h = Some y \<and>
           mapSproutNoteData y = mapSproutNoteData x \<and> mapSaplingNoteData y = mapSaplingNoteData x"
  using assms by (auto simp: write_and_mark_def Let_def map_of_map_entry MarkDirty_def)

text \<open>
  Claim C7. When \<open>AddToWallet\<close> is called with a copy of a transaction that the wallet
  already holds, and returns, the transaction that the wallet holds afterwards keeps the
  cached witnesses: for every note outpoint that the stored and the incoming note data
  both hold and for which at least one witness was stored, the stored witnesses are there
  afterwards, and never the witness list of the incoming copy. This holds whatever the
  comparison of note data is. The hypotheses say that \<open>mapWallet\<close> is in key order and
  that the keys of the stored note maps are distinct, as they are in a \<^verbatim>\<open>std::map\<close>.
\<close>

theorem AddToWallet_keeps_witnesses:
  assumes "sorted (map fst (mapWallet w))"
    and "map_of (mapWallet w) (GetHash (tx wtxIn)) = Some wtx"
    and "distinct (map fst (mapSproutNoteData wtx))"
    and "distinct (map fst (mapSaplingNoteData wtx))"
    and "AddToWallet IsEquivalentTo SproutNoteDataEq SaplingNoteDataEq now write_ok wtxIn w = Inr (res, w')"
  shows "\<exists>wtx'. map_of (mapWallet w') (GetHash (tx wtxIn)) = Some wtx' \<and>
           (\<forall>op ws. cached_witnesses (mapSproutNoteData wtx) op = Some ws \<and>
                     map_of (mapSproutNoteData wtxIn) op \<noteq> None \<longrightarrow>
                     cached_witnesses (mapSproutNoteData wtx') op = Some ws) \<and>
           (\<forall>op ws. cached_witnesses (mapSaplingNoteData wtx) op = Some ws \<and>
                     map_of (mapSaplingNoteData wtxIn) op \<noteq> None \<longrightarrow>
                     cached_witnesses (mapSaplingNoteData wtx') op = Some ws)"
proof -
  let ?h = "GetHash (tx wtxIn)"
  let ?w2 = "UpdateNullifierNoteMapWithTx wtx w"
  from assms(5) obtain upd wtx2 where
    u: "update_existing SproutNoteDataEq SaplingNoteDataEq wtxIn wtx = Inr (upd, wtx2)"
    and r: "write_and_mark write_ok ?h False upd
              (?w2\<lparr>mapWallet := AList.map_entry ?h (\<lambda>_. wtx2) (mapWallet ?w2)\<rparr>) = (res, w')"
    unfolding AddToWallet_existing[OF assms(1,2)] by (auto split: sum.splits prod.splits)
  from r have w': "w' = snd (write_and_mark write_ok ?h False upd
              (?w2\<lparr>mapWallet := AList.map_entry ?h (\<lambda>_. wtx2) (mapWallet ?w2)\<rparr>))"
    by (metis snd_conv)
  from assms(2) have "map_of (mapWallet (?w2\<lparr>mapWallet := AList.map_entry ?h (\<lambda>_. wtx2) (mapWallet ?w2)\<rparr>)) ?h
      = Some wtx2"
    by (simp add: UpdateNullifierNoteMapWithTx_def map_of_map_entry)
  from write_and_mark_notes[OF this, of write_ok False upd] obtain wtx' where
    m: "map_of (mapWallet w') ?h = Some wtx'"
    and s: "mapSproutNoteData wtx' = mapSproutNoteData wtx2"
    and a: "mapSaplingNoteData wtx' = mapSaplingNoteData wtx2"
    unfolding w' by blast
  from update_existing_notes[OF u] obtain wtx1 where
    n: "mapSproutNoteData wtx1 = mapSproutNoteData wtx" "mapSaplingNoteData wtx1 = mapSaplingNoteData wtx"
    and s2: "mapSproutNoteData wtx2 =
          mapSproutNoteData (snd (UpdatedNoteData SproutNoteDataEq SaplingNoteDataEq wtxIn wtx1))"
    and a2: "mapSaplingNoteData wtx2 =
          mapSaplingNoteData (snd (UpdatedNoteData SproutNoteDataEq SaplingNoteDataEq wtxIn wtx1))"
    by blast
  from assms(3,4) n have d: "distinct (map fst (mapSproutNoteData wtx1))"
    "distinct (map fst (mapSaplingNoteData wtx1))" by simp_all
  have "cached_witnesses (mapSproutNoteData wtx') op = Some ws"
    if "cached_witnesses (mapSproutNoteData wtx) op = Some ws \<and> map_of (mapSproutNoteData wtxIn) op \<noteq> None"
    for op ws
    using UpdatedNoteData_keeps[OF d, where wtxIn=wtxIn and op=op and ws=ws
        and SproutNoteDataEq=SproutNoteDataEq and SaplingNoteDataEq=SaplingNoteDataEq] that
    by (simp add: s s2 n)
  moreover have "cached_witnesses (mapSaplingNoteData wtx') op = Some ws"
    if "cached_witnesses (mapSaplingNoteData wtx) op = Some ws \<and> map_of (mapSaplingNoteData wtxIn) op \<noteq> None"
    for op ws
    using UpdatedNoteData_keeps[OF d, where wtxIn=wtxIn and sop=op and sws=ws
        and SproutNoteDataEq=SproutNoteDataEq and SaplingNoteDataEq=SaplingNoteDataEq] that
    by (simp add: a a2 n)
  ultimately show ?thesis using m by blast
qed

text \<open>
  An instance of C7: the incoming copy with fresh note data is merged into the stored
  transaction; the call reports an update and the wallet keeps the two cached witnesses.
\<close>

theorem AddToWallet_keeps_witnesses_witness:
  "\<exists>res w' wtx'. AddToWallet (\<lambda>a b. True) (=) (=) 5 True ex_incoming ex_note_wallet = Inr (res, w') \<and>
     fUpdated res \<and> map_of (mapWallet w') 1 = Some wtx' \<and>
     cached_witnesses (mapSaplingNoteData wtx') (SaplingOutPoint 1 0) =
       Some [IncrementalWitness [6] [], IncrementalWitness [4] []]"
proof -
  have s: "sorted (map fst (mapWallet ex_note_wallet))"
    by (simp add: ex_note_wallet_def ex_wallet_def)
  have m: "map_of (mapWallet ex_note_wallet) (GetHash (tx ex_incoming)) = Some ex_stored"
    by (simp add: ex_note_wallet_def ex_wallet_def ex_incoming_def ex_wtx_def ex_tx_def)
  have h: "GetHash (tx ex_incoming) = 1"
    by (simp add: ex_incoming_def ex_wtx_def ex_tx_def)
  have d: "distinct (map fst (mapSproutNoteData ex_stored))" "distinct (map fst (mapSaplingNoteData ex_stored))"
    by (simp_all add: ex_stored_def ex_wtx_def)
  have c: "cached_witnesses (mapSaplingNoteData ex_stored) (SaplingOutPoint 1 0) =
     Some [IncrementalWitness [6] [], IncrementalWitness [4] []]"
    "map_of (mapSaplingNoteData ex_incoming) (SaplingOutPoint 1 0) \<noteq> None"
    by (simp_all add: ex_stored_def ex_incoming_def ex_wtx_def ex_note_def cached_witnesses_def)
  have "\<exists>res w'. AddToWallet (\<lambda>a b. True) (=) (=) 5 True ex_incoming ex_note_wallet = Inr (res, w') \<and>
      fUpdated res"
    by (simp add: AddToWallet_def update_existing_def UpdatedNoteData_def note_map_eq_def
        write_and_mark_def UpdateNullifierNoteMapWithTx_def note_nullifiers_def
        ex_note_wallet_def ex_wallet_def ex_stored_def ex_incoming_def ex_wtx_def ex_tx_def ex_note_def)
  then obtain res w' where
    r: "AddToWallet (\<lambda>a b. True) (=) (=) 5 True ex_incoming ex_note_wallet = Inr (res, w')"
    and f: "fUpdated res" by blast
  from AddToWallet_keeps_witnesses[OF s m d r] c h r f show ?thesis by metis
qed

text \<open>What the order positions of a wallet are: the counter and the position of every transaction.\<close>

definition same_order :: "CWallet \<Rightarrow> CWallet \<Rightarrow> bool" where
  "same_order w w' =
     (nOrderPosNext w' = nOrderPosNext w \<and>
      (\<forall>k. map_option nOrderPos (map_of (mapWallet w') k) = map_option nOrderPos (map_of (mapWallet w) k)))"

lemma same_order_refl: "same_order w w"
  by (simp add: same_order_def)

lemma same_order_trans: "same_order a b \<Longrightarrow> same_order b c \<Longrightarrow> same_order a c"
  by (simp add: same_order_def)

lemma for_each_same_order:
  assumes "\<And>x s s'. body x s = Inr s' \<Longrightarrow> same_order s s'" and "for_each body xs w = Inr w'"
  shows "same_order w w'"
proof (rule for_each_invariant[where P="same_order w", OF _ same_order_refl assms(2)])
  fix x s s'
  assume "same_order w s" "body x s = Inr s'"
  then show "same_order w s'" using assms(1) same_order_trans by blast
qed

lemma copy_metadata_same_order:
  "copy_metadata IsEq copyFrom h w = Inr w' \<Longrightarrow> same_order w w'"
  by (auto simp: copy_metadata_def same_order_def map_of_map_entry
      split: option.splits if_splits)

lemma SyncMetaData_same_order:
  assumes "SyncMetaData IsEq its w = Inr w'"
  shows "same_order w w'"
proof (cases "find_copyFrom (mapWallet w) its (2 ^ 31 - 1) None")
  case (Inl e)
  with assms show ?thesis by (simp add: SyncMetaData_def)
next
  case (Inr c)
  show ?thesis
  proof (cases c)
    case None
    with Inr assms show ?thesis by (simp add: SyncMetaData_def same_order_refl)
  next
    case (Some copyFrom)
    with Inr assms have "for_each (\<lambda>it. copy_metadata IsEq copyFrom (snd it)) its w = Inr w'"
      by (simp add: SyncMetaData_def)
    then show ?thesis
    proof (rule for_each_same_order[rotated])
      fix x s s'
      assume "copy_metadata IsEq copyFrom (snd x) s = Inr s'"
      then show "same_order s s'" by (rule copy_metadata_same_order)
    qed
  qed
qed

lemma AddToTransparentSpends_same_order:
  assumes "AddToTransparentSpends IsEq h op w = Inr w'"
  shows "same_order w w'"
proof -
  from assms have "same_order (w\<lparr>mapTxSpends := multimap_insert op h (mapTxSpends w),
      setLockedCoins := removeAll op (setLockedCoins w)\<rparr>) w'"
    by (auto simp: AddToTransparentSpends_def Let_def intro: SyncMetaData_same_order)
  then show ?thesis by (simp add: same_order_def)
qed

lemma AddToSproutSpends_same_order:
  assumes "AddToSproutSpends IsEq h nf w = Inr w'"
  shows "same_order w w'"
proof -
  from assms have "same_order (w\<lparr>mapTxSproutNullifiers := multimap_insert nf h (mapTxSproutNullifiers w)\<rparr>) w'"
    by (auto simp: AddToSproutSpends_def Let_def intro: SyncMetaData_same_order)
  then show ?thesis by (simp add: same_order_def)
qed

lemma AddToSaplingSpends_same_order:
  assumes "AddToSaplingSpends IsEq h nf w = Inr w'"
  shows "same_order w w'"
proof -
  from assms have "same_order (w\<lparr>mapTxSaplingNullifiers := multimap_insert nf h (mapTxSaplingNullifiers w)\<rparr>) w'"
    by (auto simp: AddToSaplingSpends_def Let_def intro: SyncMetaData_same_order)
  then show ?thesis by (simp add: same_order_def)
qed

lemma AddToSpends_same_order:
  assumes "AddToSpends IsEq h w = Inr w'"
  shows "same_order w w'"
proof (cases "map_of (mapWallet w) h")
  case None
  with assms show ?thesis by (simp add: AddToSpends_def)
next
  case (Some thisTx)
  show ?thesis
  proof (cases "IsCoinBase (tx thisTx)")
    case True
    with Some assms show ?thesis by (simp add: AddToSpends_def same_order_refl)
  next
    case False
    with Some assms obtain w1 w2 where
      1: "for_each (AddToTransparentSpends IsEq h) (vin (tx thisTx)) w = Inr w1"
      and 2: "for_each (AddToSproutSpends IsEq h) (concat (map nullifiers (vJoinSplit (tx thisTx)))) w1 = Inr w2"
      and 3: "for_each (AddToSaplingSpends IsEq h) (vShieldedSpend (tx thisTx)) w2 = Inr w'"
      by (auto simp: AddToSpends_def split: sum.splits)
    have "same_order w w1"
    proof (rule for_each_same_order[OF _ 1])
      fix x s s'
      assume "AddToTransparentSpends IsEq h x s = Inr s'"
      then show "same_order s s'" by (rule AddToTransparentSpends_same_order)
    qed
    moreover have "same_order w1 w2"
    proof (rule for_each_same_order[OF _ 2])
      fix x s s'
      assume "AddToSproutSpends IsEq h x s = Inr s'"
      then show "same_order s s'" by (rule AddToSproutSpends_same_order)
    qed
    moreover have "same_order w2 w'"
    proof (rule for_each_same_order[OF _ 3])
      fix x s s'
      assume "AddToSaplingSpends IsEq h x s = Inr s'"
      then show "same_order s s'" by (rule AddToSaplingSpends_same_order)
    qed
    ultimately show ?thesis by (blast intro: same_order_trans)
  qed
qed

lemma IncOrderPosNext_result:
  "IncOrderPosNext w = (pos, w') \<Longrightarrow>
   pos = nOrderPosNext w \<and> nOrderPosNext w' = wrap64 (pos + 1) \<and> mapWallet w' = mapWallet w"
  by (auto simp: IncOrderPosNext_def Let_def)

lemma wrap64_in_range: "- (2 ^ 63) \<le> x \<Longrightarrow> x < 2 ^ 63 \<Longrightarrow> wrap64 x = x"
  by (simp add: wrap64_def)

lemma insert_new_order:
  assumes "insert_new IsEq now h w = Inr w'" and "map_of (mapWallet w) h \<noteq> None"
  shows "nOrderPosNext w' = wrap64 (nOrderPosNext w + 1)"
    and "map_option nOrderPos (map_of (mapWallet w') h) = Some (nOrderPosNext w)"
proof -
  from assms(1) obtain pos w1 where i: "IncOrderPosNext w = (pos, w1)"
    and a: "AddToSpends IsEq h (w1\<lparr>mapWallet := AList.map_entry h
                        (\<lambda>wtx. wtx\<lparr>nTimeReceived := now, nOrderPos := pos\<rparr>) (mapWallet w1),
                      wtxOrdered := multimap_insert pos h (wtxOrdered w1)\<rparr>) = Inr w'"
    by (auto simp: insert_new_def Let_def split: prod.splits)
  from IncOrderPosNext_result[OF i] have p: "pos = nOrderPosNext w" "nOrderPosNext w1 = wrap64 (pos + 1)"
    "mapWallet w1 = mapWallet w" by auto
  from AddToSpends_same_order[OF a] have n: "nOrderPosNext w' = nOrderPosNext w1"
    and m: "map_option nOrderPos (map_of (mapWallet w') h) =
       map_option nOrderPos (map_of (AList.map_entry h
                        (\<lambda>wtx. wtx\<lparr>nTimeReceived := now, nOrderPos := pos\<rparr>) (mapWallet w1)) h)"
    by (simp_all add: same_order_def)
  from n p show "nOrderPosNext w' = wrap64 (nOrderPosNext w + 1)" by simp
  from m p assms(2) show "map_option nOrderPos (map_of (mapWallet w') h) = Some (nOrderPosNext w)"
    by (auto simp: map_of_map_entry)
qed

lemma write_and_mark_order:
  "nOrderPosNext (snd (write_and_mark ok h isNew upd w)) = nOrderPosNext w"
  "map_option nOrderPos (map_of (mapWallet (snd (write_and_mark ok h isNew upd w))) k) =
     map_option nOrderPos (map_of (mapWallet w) k)"
  "fInsertedNew (fst (write_and_mark ok h isNew upd w)) = isNew"
  by (auto simp: write_and_mark_def Let_def map_of_map_entry MarkDirty_def split: option.splits)

lemma AddToWallet_order:
  assumes "AddToWallet IsEq eqS eqA now ok wtxIn w = Inr (res, w')"
  shows "if fInsertedNew res
         then map_option nOrderPos (map_of (mapWallet w') (GetHash (tx wtxIn))) = Some (nOrderPosNext w) \<and>
              nOrderPosNext w' = wrap64 (nOrderPosNext w + 1)
         else nOrderPosNext w' = nOrderPosNext w"
proof -
  define h where "h = GetHash (tx wtxIn)"
  define wtx where "wtx = (case map_of (mapWallet w) h of None \<Rightarrow> wtxIn | Some stored \<Rightarrow> stored)"
  define w2 where "w2 = UpdateNullifierNoteMapWithTx wtx (w\<lparr>mapWallet := map_insert h wtxIn (mapWallet w)\<rparr>)"
  have w2: "nOrderPosNext w2 = nOrderPosNext w" "map_of (mapWallet w2) h \<noteq> None"
    by (simp_all add: w2_def UpdateNullifierNoteMapWithTx_def map_of_map_insert_key)
  show ?thesis
  proof (cases "map_of (mapWallet w) h = None")
    case True
    with assms obtain w3 where i: "insert_new IsEq now h w2 = Inr w3"
      and r: "write_and_mark ok h True False w3 = (res, w')"
      by (auto simp: AddToWallet_def Let_def h_def w2_def wtx_def split: sum.splits)
    from r have "res = fst (write_and_mark ok h True False w3)" "w' = snd (write_and_mark ok h True False w3)"
      by simp_all
    with insert_new_order[OF i w2(2)] w2(1) show ?thesis
      by (simp add: write_and_mark_order h_def)
  next
    case False
    with assms obtain upd wtx' where
      r: "write_and_mark ok h False upd
            (w2\<lparr>mapWallet := AList.map_entry h (\<lambda>_. wtx') (mapWallet w2)\<rparr>) = (res, w')"
      by (auto simp: AddToWallet_def Let_def h_def w2_def wtx_def split: sum.splits prod.splits)
    from r have "res = fst (write_and_mark ok h False upd (w2\<lparr>mapWallet := AList.map_entry h (\<lambda>_. wtx') (mapWallet w2)\<rparr>))"
      "w' = snd (write_and_mark ok h False upd (w2\<lparr>mapWallet := AList.map_entry h (\<lambda>_. wtx') (mapWallet w2)\<rparr>))"
      by simp_all
    with w2(1) show ?thesis by (simp add: write_and_mark_order)
  qed
qed

text \<open>
  Claim C10, as amended. In any run of \<open>AddToWallet\<close> calls that completes without an
  overflow of the 64-bit counter \<open>nOrderPosNext\<close>, the order positions given to the
  transactions that were inserted are strictly increasing in the order of the calls, and
  lie between the counter before the run and the counter after it, which has advanced by
  the number of insertions. The second hypothesis says that the counter is a 64-bit value,
  the third that no increment of the run wraps around.
\<close>

theorem order_positions_increasing:
  assumes "AddToWallet_calls IsEquivalentTo SproutNoteDataEq SaplingNoteDataEq calls w = Inr (ps, w')"
    and "- (2 ^ 63) \<le> nOrderPosNext w"
    and "nOrderPosNext w + int (length ps) < 2 ^ 63"
  shows "sorted_wrt (<) ps \<and> (\<forall>p \<in> set ps. nOrderPosNext w \<le> p \<and> p < nOrderPosNext w') \<and>
         nOrderPosNext w' = nOrderPosNext w + int (length ps)"
  using assms
proof (induction calls arbitrary: w ps)
  case Nil
  then show ?case by simp
next
  case (Cons call rest)
  from Cons.prems(1) obtain res w1 ps1 where
    a: "AddToWallet IsEquivalentTo SproutNoteDataEq SaplingNoteDataEq
          (fst call) (fst (snd call)) (snd (snd call)) w = Inr (res, w1)"
    and r: "AddToWallet_calls IsEquivalentTo SproutNoteDataEq SaplingNoteDataEq rest w1 = Inr (ps1, w')"
    and ps: "ps = (if fInsertedNew res
                   then (case map_of (mapWallet w1) (GetHash (tx (snd (snd call)))) of
                           None \<Rightarrow> [] | Some wtx \<Rightarrow> [nOrderPos wtx])
                   else []) @ ps1"
    by (auto split: sum.splits)
  show ?case
  proof (cases "fInsertedNew res")
    case True
    with AddToWallet_order[OF a] have
      "map_option nOrderPos (map_of (mapWallet w1) (GetHash (tx (snd (snd call))))) = Some (nOrderPosNext w)"
      and n0: "nOrderPosNext w1 = wrap64 (nOrderPosNext w + 1)" by auto
    then obtain wtx where "map_of (mapWallet w1) (GetHash (tx (snd (snd call)))) = Some wtx"
      "nOrderPos wtx = nOrderPosNext w" by auto
    with ps True have p: "ps = nOrderPosNext w # ps1" by simp
    with Cons.prems(2,3) have "- (2 ^ 63) \<le> nOrderPosNext w + 1" "nOrderPosNext w + 1 < 2 ^ 63"
      by simp_all
    with n0 have n: "nOrderPosNext w1 = nOrderPosNext w + 1" by (simp add: wrap64_in_range)
    from Cons.prems(2,3) p n have "- (2 ^ 63) \<le> nOrderPosNext w1"
      "nOrderPosNext w1 + int (length ps1) < 2 ^ 63" by simp_all
    from Cons.IH[OF r this] have ih: "sorted_wrt (<) ps1"
      "\<forall>p \<in> set ps1. nOrderPosNext w1 \<le> p \<and> p < nOrderPosNext w'"
      "nOrderPosNext w' = nOrderPosNext w1 + int (length ps1)"
      by auto
    with p n show ?thesis by auto
  next
    case False
    with AddToWallet_order[OF a] have n: "nOrderPosNext w1 = nOrderPosNext w" by simp
    from ps False have p: "ps = ps1" by simp
    from Cons.prems(2,3) p n have "- (2 ^ 63) \<le> nOrderPosNext w1"
      "nOrderPosNext w1 + int (length ps1) < 2 ^ 63" by simp_all
    from Cons.IH[OF r this] p n show ?thesis by auto
  qed
qed

lemmas ex_add_defs = AddToWallet_def insert_new_def IncOrderPosNext_def wrap64_def AddToSpends_def
  AddToTransparentSpends_def SyncMetaData_def copy_metadata_def narrow_int_def
  update_existing_def UpdatedNoteData_def note_map_eq_def write_and_mark_def
  UpdateNullifierNoteMapWithTx_def note_nullifiers_def equal_range_def lower_bound_def
  ex_spent_wallet_def ex_wallet_def ex_wtx_def ex_tx_def MarkDirty_def

text \<open>
  An instance of C10: transaction 7 is added twice and transaction 6 once; the two
  insertions get the positions 0 and 1, and the counter advances from 0 to 2.
\<close>

theorem order_positions_increasing_witness:
  "\<exists>w'. AddToWallet_calls (\<lambda>a b. True) (=) (=)
      [(5, True, ex_wtx 7 [(1, 0)] UNCONFIRMED 0), (5, True, ex_wtx 7 [(1, 0)] UNCONFIRMED 0),
       (6, True, ex_wtx 6 [(1, 0), (7, 1)] UNCONFIRMED 0)] ex_spent_wallet = Inr ([0, 1], w') \<and>
     nOrderPosNext ex_spent_wallet = 0 \<and> nOrderPosNext w' = 2"
proof -
  have "\<exists>w'. AddToWallet_calls (\<lambda>a b. True) (=) (=)
      [(5, True, ex_wtx 7 [(1, 0)] UNCONFIRMED 0), (5, True, ex_wtx 7 [(1, 0)] UNCONFIRMED 0),
       (6, True, ex_wtx 6 [(1, 0), (7, 1)] UNCONFIRMED 0)] ex_spent_wallet = Inr ([0, 1], w')"
    by (simp add: ex_add_defs)
  then obtain w' where r: "AddToWallet_calls (\<lambda>a b. True) (=) (=)
      [(5, True, ex_wtx 7 [(1, 0)] UNCONFIRMED 0), (5, True, ex_wtx 7 [(1, 0)] UNCONFIRMED 0),
       (6, True, ex_wtx 6 [(1, 0), (7, 1)] UNCONFIRMED 0)] ex_spent_wallet = Inr ([0, 1], w')"
    by blast
  have z: "nOrderPosNext ex_spent_wallet = 0"
    by (simp add: ex_spent_wallet_def ex_wallet_def)
  have b: "- (2 ^ 63) \<le> nOrderPosNext ex_spent_wallet"
    "nOrderPosNext ex_spent_wallet + int (length [0, 1 :: int]) < 2 ^ 63"
    by (simp_all add: z)
  from order_positions_increasing[OF r b] z have "nOrderPosNext w' = 2" by simp
  with r z show ?thesis by blast
qed

text \<open>
  Claim C10 as stated fails when the counter is at its largest value: the first
  transaction inserted gets the position \<open>2\<^sup>6\<^sup>3 - 1\<close>, the counter wraps around, and the
  second one gets \<open>- 2\<^sup>6\<^sup>3\<close>, which is not greater.
\<close>

theorem order_positions_wrap_counterexample:
  "map_sum id fst (AddToWallet_calls (\<lambda>a b. True) (=) (=)
      [(5, True, ex_wtx 7 [(1, 0)] UNCONFIRMED 0), (6, True, ex_wtx 6 [(1, 0), (7, 1)] UNCONFIRMED 0)]
      (ex_spent_wallet\<lparr>nOrderPosNext := 9223372036854775807\<rparr>)) =
     Inr [9223372036854775807, - 9223372036854775808] \<and>
   \<not> sorted_wrt (<) [9223372036854775807, - 9223372036854775808 :: int]"
  by (simp add: ex_add_defs)

section \<open>Conflicted and abandoned transactions\<close>

text \<open>
  A \<^verbatim>\<open>std::set<uint256>\<close> is a list in increasing order without repetitions;
  \<^verbatim>\<open>*s.begin()\<close> is its head.
\<close>

definition set_insert :: "'a::linorder \<Rightarrow> 'a list \<Rightarrow> 'a list" where
  "set_insert x xs = (if x \<in> set xs then xs else insort x xs)"

definition set_erase :: "'a \<Rightarrow> 'a list \<Rightarrow> 'a list" where
  "set_erase x xs = removeAll x xs"

text \<open>
  The entries of \<open>mapTxSpends\<close> that the loop
  \<^verbatim>\<open>iter = mapTxSpends.lower_bound(COutPoint(now, 0)); while (iter != end && iter->first.hash == now)\<close>
  visits, and the insertion into \<open>todo\<close> of those spenders that are not in \<open>done\<close>.
\<close>

definition spends_of :: "uint256 \<Rightarrow> (COutPoint \<times> uint256) list \<Rightarrow> (COutPoint \<times> uint256) list" where
  "spends_of now spends = takeWhile (\<lambda>it. fst (fst it) = now) (lower_bound (now, 0) spends)"

definition add_spenders ::
  "(COutPoint \<times> uint256) list \<Rightarrow> uint256 list \<Rightarrow> uint256 list \<Rightarrow> uint256 list" where
  "add_spenders its done todo =
     fold (\<lambda>it todo. if snd it \<notin> set done then set_insert (snd it) todo else todo) its todo"

text \<open>
  \<^verbatim>\<open>CWallet::MarkInputsDirty\<close>: the cached amounts of the wallet transactions whose
  outputs or notes the transaction spends are reset.
\<close>

definition mark_dirty_at :: "uint256 \<Rightarrow> CWallet \<Rightarrow> CWallet" where
  "mark_dirty_at h w = w\<lparr>mapWallet := AList.map_entry h MarkDirty (mapWallet w)\<rparr>"

definition MarkInputsDirty :: "CTransaction \<Rightarrow> CWallet \<Rightarrow> CWallet" where
  "MarkInputsDirty t w =
     (let w1 = fold (\<lambda>txin w. mark_dirty_at (fst txin) w) (vin t) w;
          w2 = fold (\<lambda>nf w. case map_of (mapSproutNullifiersToNotes w) nf of
                              None \<Rightarrow> w | Some op \<Rightarrow> mark_dirty_at (sprout_hash op) w)
                 (concat (map nullifiers (vJoinSplit t))) w1
      in fold (\<lambda>nf w. case map_of (mapSaplingNullifiersToNotes w) nf of
                         None \<Rightarrow> w | Some op \<Rightarrow> mark_dirty_at (sapling_hash op) w)
           (vShieldedSpend t) w2)"

subsection \<open>\<^verbatim>\<open>CWallet::MarkConflicted\<close>\<close>

text \<open>
  The body of the \<^verbatim>\<open>while (!todo.empty())\<close> loop after \<open>now\<close> has been moved from \<open>todo\<close>
  to \<open>done\<close>: it returns the new \<open>todo\<close> and the new wallet.
\<close>

definition MarkConflicted_visit ::
  "(uint256 \<Rightarrow> int) \<Rightarrow> int \<Rightarrow> uint256 \<Rightarrow> uint256 \<Rightarrow> uint256 list \<Rightarrow> uint256 list \<Rightarrow> CWallet \<Rightarrow>
   error + (uint256 list \<times> CWallet)" where
  "MarkConflicted_visit getBlockDepth conflictconfirms hashBlock' now todo done w =
     (case map_of (mapWallet w) now of
        None \<Rightarrow> Inl AssertionFailed
      | Some wtx \<Rightarrow>
          (let currentconfirm = GetDepthInMainChain getBlockDepth wtx in
           if conflictconfirms < currentconfirm then
             (let wtx1 = wtx\<lparr>m_confirm := (m_confirm wtx)\<lparr>nIndex := 0, hashBlock := hashBlock'\<rparr>\<rparr>;
                  wtx2 = MarkDirty (setConflicted wtx1);
                  w1 = w\<lparr>mapWallet := AList.map_entry now (\<lambda>_. wtx2) (mapWallet w),
                         db := db w @ [WriteTx wtx2]\<rparr>;
                  todo1 = add_spenders (spends_of now (mapTxSpends w1)) done todo
              in Inr (todo1, MarkInputsDirty (tx wtx2) w1))
           else Inr (todo, w)))"

lemma set_set_insert [simp]: "set (set_insert x xs) = insert x (set xs)"
  by (auto simp: set_insert_def set_insort_key)

lemma set_set_erase [simp]: "set (set_erase x xs) = set xs - {x}"
  by (simp add: set_erase_def)

lemma set_add_spenders:
  "set (add_spenders its done todo) = set todo \<union> (snd ` set its - set done)"
  unfolding add_spenders_def
  by (induction its arbitrary: todo) auto

lemma mapTxSpends_mark_dirty_at [simp]: "mapTxSpends (mark_dirty_at h w) = mapTxSpends w"
  by (simp add: mark_dirty_at_def)

lemma mapTxSpends_MarkInputsDirty [simp]: "mapTxSpends (MarkInputsDirty t w) = mapTxSpends w"
proof -
  have a: "mapTxSpends (fold (\<lambda>txin w. mark_dirty_at (fst txin) w) xs w) = mapTxSpends w"
    for xs :: "COutPoint list" and w
    by (induction xs arbitrary: w) auto
  have b: "mapTxSpends (fold (\<lambda>nf w. case map_of (mapSproutNullifiersToNotes w) nf of
                              None \<Rightarrow> w | Some op \<Rightarrow> mark_dirty_at (sprout_hash op) w) xs w) = mapTxSpends w"
    for xs w
    by (induction xs arbitrary: w) (auto split: option.splits)
  have c: "mapTxSpends (fold (\<lambda>nf w. case map_of (mapSaplingNullifiersToNotes w) nf of
                         None \<Rightarrow> w | Some op \<Rightarrow> mark_dirty_at (sapling_hash op) w) xs w) = mapTxSpends w"
    for xs w
    by (induction xs arbitrary: w) (auto split: option.splits)
  show ?thesis by (simp add: MarkInputsDirty_def Let_def a b c)
qed

lemma spends_of_subset: "set (spends_of now spends) \<subseteq> set spends"
  unfolding spends_of_def lower_bound_def
  by (meson set_dropWhileD set_takeWhileD subsetI)

lemma MarkConflicted_visit_result:
  assumes "MarkConflicted_visit c cc hb now todo done w = Inr (todo', w')"
  shows "mapTxSpends w' = mapTxSpends w"
    and "set todo' \<subseteq> set todo \<union> (snd ` set (mapTxSpends w) - set done)"
proof -
  from assms obtain wtx where "map_of (mapWallet w) now = Some wtx"
    by (auto simp: MarkConflicted_visit_def split: option.splits)
  with assms show "mapTxSpends w' = mapTxSpends w"
    by (auto simp: MarkConflicted_visit_def Let_def split: if_splits)
  from assms \<open>map_of (mapWallet w) now = Some wtx\<close>
  show "set todo' \<subseteq> set todo \<union> (snd ` set (mapTxSpends w) - set done)"
    using image_mono[OF spends_of_subset[of now "mapTxSpends w"], of snd]
    by (auto simp: MarkConflicted_visit_def Let_def set_add_spenders split: if_splits)
qed

text \<open>
  The measure of the walks: the ids of the spend index, of \<open>todo\<close> and of \<open>done\<close> that are
  not in \<open>done\<close>, then the ids of \<open>todo\<close> that are in \<open>done\<close>.
\<close>

definition walk_measure :: "(COutPoint \<times> uint256) list \<Rightarrow> uint256 list \<Rightarrow> uint256 list \<Rightarrow> nat \<times> nat" where
  "walk_measure spends todo done =
     (card ((snd ` set spends \<union> set todo \<union> set done) - set done), card (set todo \<inter> set done))"

lemma walk_measure_decreases:
  assumes "now \<in> set todo"
    and "set todo' \<subseteq> (set todo - {now}) \<union> (snd ` set spends - insert now (set done))"
  shows "(walk_measure spends todo' (set_insert now done), walk_measure spends todo done)
           \<in> less_than <*lex*> less_than"
proof -
  let ?U = "snd ` set spends \<union> set todo \<union> set done"
  let ?U' = "snd ` set spends \<union> set todo' \<union> insert now (set done)"
  have fin: "finite (?U - set done)" "finite (set todo \<inter> set done)" by auto
  have sub: "?U' - insert now (set done) \<subseteq> ?U - set done" using assms by auto
  show ?thesis
  proof (cases "now \<in> set done")
    case False
    with assms(1) have "now \<in> ?U - set done" "now \<notin> ?U' - insert now (set done)" by auto
    with sub have "?U' - insert now (set done) \<subset> ?U - set done" by blast
    with fin(1) have "card (?U' - insert now (set done)) < card (?U - set done)"
      by (rule psubset_card_mono)
    then show ?thesis by (simp add: walk_measure_def)
  next
    case True
    from sub fin(1) have le: "card (?U' - insert now (set done)) \<le> card (?U - set done)"
      by (intro card_mono)
    from True assms have "set todo' \<inter> insert now (set done) \<subseteq> (set todo \<inter> set done) - {now}"
      by auto
    moreover from True assms(1) have "now \<in> set todo \<inter> set done" by simp
    ultimately have "set todo' \<inter> insert now (set done) \<subset> set todo \<inter> set done" by blast
    with fin(2) have "card (set todo' \<inter> insert now (set done)) < card (set todo \<inter> set done)"
      by (rule psubset_card_mono)
    with le show ?thesis by (auto simp: walk_measure_def)
  qed
qed

function MarkConflicted_loop ::
  "(uint256 \<Rightarrow> int) \<Rightarrow> int \<Rightarrow> uint256 \<Rightarrow> uint256 list \<Rightarrow> uint256 list \<Rightarrow> CWallet \<Rightarrow> error + CWallet" where
  "MarkConflicted_loop getBlockDepth conflictconfirms hashBlock' [] done w = Inr w"
| "MarkConflicted_loop getBlockDepth conflictconfirms hashBlock' (now # rest) done w =
     (case MarkConflicted_visit getBlockDepth conflictconfirms hashBlock' now
             (set_erase now (now # rest)) (set_insert now done) w of
        Inl e \<Rightarrow> Inl e
      | Inr (todo', w') \<Rightarrow>
          MarkConflicted_loop getBlockDepth conflictconfirms hashBlock' todo' (set_insert now done) w')"
  by pat_completeness auto
termination
proof (relation "inv_image (less_than <*lex*> less_than)
    (\<lambda>(c, cc, hb, todo, done, w). walk_measure (mapTxSpends w) todo done)")
  show "wf (inv_image (less_than <*lex*> less_than)
    (\<lambda>(c, cc, hb, todo, done, w). walk_measure (mapTxSpends w) todo done))"
    by (intro wf_inv_image wf_lex_prod wf_less_than)
next
  fix c cc hb now rest "done" w x todo' w'
  assume v: "MarkConflicted_visit c cc hb now (set_erase now (now # rest)) (set_insert now done) w = Inr x"
    and x: "(todo', w') = x"
  from v x have r: "MarkConflicted_visit c cc hb now (set_erase now (now # rest)) (set_insert now done) w = Inr (todo', w')"
    by simp
  from MarkConflicted_visit_result[OF r]
  have s: "mapTxSpends w' = mapTxSpends w"
    and t: "set todo' \<subseteq> (set (now # rest) - {now}) \<union> (snd ` set (mapTxSpends w) - insert now (set done))"
    by auto
  have "(walk_measure (mapTxSpends w) todo' (set_insert now done), walk_measure (mapTxSpends w) (now # rest) done)
           \<in> less_than <*lex*> less_than"
    by (rule walk_measure_decreases[OF _ t]) simp
  with s show "((c, cc, hb, todo', set_insert now done, w'), (c, cc, hb, now # rest, done, w))
       \<in> inv_image (less_than <*lex*> less_than)
    (\<lambda>(c, cc, hb, todo, done, w). walk_measure (mapTxSpends w) todo done)"
    by simp
qed

definition MarkConflicted :: "(uint256 \<Rightarrow> int) \<Rightarrow> uint256 \<Rightarrow> uint256 \<Rightarrow> CWallet \<Rightarrow> error + CWallet" where
  "MarkConflicted getBlockDepth hashBlock' hashTx w =
     (let conflictconfirms = - getBlockDepth hashBlock' in
      if conflictconfirms \<ge> 0 then Inr w
      else MarkConflicted_loop getBlockDepth conflictconfirms hashBlock' [hashTx] [] w)"

lemma takeWhile_hash_filter:
  fixes xs :: "(COutPoint \<times> 'v) list"
  assumes "sorted (map fst xs)" and "\<forall>e \<in> set xs. now \<le> fst (fst e)"
  shows "takeWhile (\<lambda>it. fst (fst it) = now) xs = filter (\<lambda>it. fst (fst it) = now) xs"
  using assms
proof (induction xs)
  case Nil
  then show ?case by simp
next
  case (Cons e xs)
  show ?case
  proof (cases "fst (fst e) = now")
    case True
    with Cons show ?thesis by simp
  next
    case False
    with Cons.prems(2) have lt: "now < fst (fst e)" by auto
    have "fst (fst e) \<le> fst (fst x)" if "x \<in> set xs" for x
    proof -
      from Cons.prems(1) that have "fst e \<le> fst x" by auto
      then show ?thesis by (cases "fst e"; cases "fst x") (auto simp: less_eq_prod_def)
    qed
    with lt have "\<forall>x \<in> set xs. fst (fst x) \<noteq> now" by fastforce
    then have "filter (\<lambda>it. fst (fst it) = now) xs = []" by (simp add: filter_empty_conv)
    with False show ?thesis by simp
  qed
qed

lemma spends_of_filter:
  assumes "sorted (map fst spends)"
  shows "spends_of now spends = filter (\<lambda>it. fst (fst it) = now) spends"
  using assms
proof (induction spends)
  case Nil
  then show ?case by (simp add: spends_of_def lower_bound_def)
next
  case (Cons e xs)
  show ?case
  proof (cases "fst e < (now, 0)")
    case True
    then have "fst (fst e) \<noteq> now" by (cases "fst e") (auto simp: less_prod_def)
    with True Cons show ?thesis by (simp add: spends_of_def lower_bound_def)
  next
    case False
    then have ge: "now \<le> fst (fst e)" by (cases "fst e") (auto simp: less_prod_def)
    have "now \<le> fst (fst x)" if "x \<in> set xs" for x
    proof -
      from Cons.prems that have "fst e \<le> fst x" by auto
      then have "fst (fst e) \<le> fst (fst x)"
        by (cases "fst e"; cases "fst x") (auto simp: less_eq_prod_def)
      with ge show ?thesis by simp
    qed
    with ge have "\<forall>x \<in> set (e # xs). now \<le> fst (fst x)" by simp
    from takeWhile_hash_filter[OF Cons.prems this] False
    show ?thesis by (simp add: spends_of_def lower_bound_def)
  qed
qed

text \<open>
  The graph that the walks follow: \<open>b\<close> is a successor of \<open>a\<close> when the spend index
  registers \<open>b\<close> as a spender of a transparent output of \<open>a\<close>.
\<close>

definition spend_edges :: "CWallet \<Rightarrow> (uint256 \<times> uint256) set" where
  "spend_edges w = {(a, b). \<exists>i. ((a, i), b) \<in> set (mapTxSpends w)}"

lemma spends_of_edges:
  "sorted (map fst (mapTxSpends w)) \<Longrightarrow> snd ` set (spends_of now (mapTxSpends w)) = spend_edges w `` {now}"
  by (force simp: spends_of_filter spend_edges_def)

text \<open>
  The invariant of a walk with worklist \<open>T\<close> and visited set \<open>D\<close>, started at \<open>start\<close>:
  every visited node that is eligible has been marked and has all its successors visited
  or on the worklist; all nodes met are in \<open>Ok\<close>.
\<close>

definition walk_inv ::
  "('a \<times> 'a) set \<Rightarrow> ('a \<Rightarrow> bool) \<Rightarrow> 'a set \<Rightarrow> 'a \<Rightarrow> 'a set \<Rightarrow> 'a set \<Rightarrow> 'a set \<Rightarrow> bool" where
  "walk_inv E elig Ok start T D Mk =
     (T \<inter> D = {} \<and> start \<in> D \<union> T \<and> T \<union> D \<subseteq> Ok \<and>
      (\<forall>a \<in> D. elig a \<longrightarrow> a \<in> Mk \<and> E `` {a} \<subseteq> D \<union> T))"

lemma walk_inv_expand:
  assumes "walk_inv E elig Ok start T D Mk" and "now \<in> T" and "elig now"
    and "\<forall>a \<in> Ok. elig a \<longrightarrow> E `` {a} \<subseteq> Ok"
    and "Mk \<subseteq> Mk'" and "now \<in> Mk'"
    and "T' = (T - {now}) \<union> (E `` {now} - insert now D)"
  shows "walk_inv E elig Ok start T' (insert now D) Mk'"
  using assms unfolding walk_inv_def by (auto 0 3)

lemma walk_inv_skip:
  assumes "walk_inv E elig Ok start T D Mk" and "now \<in> T" and "\<not> elig now" and "Mk \<subseteq> Mk'"
  shows "walk_inv E elig Ok start (T - {now}) (insert now D) Mk'"
  using assms unfolding walk_inv_def by (auto 0 3)

lemma walk_inv_final:
  assumes "walk_inv E elig Ok start {} D Mk" and "elig start"
    and "(start, b) \<in> (E \<inter> {(x, y). elig x \<and> elig y})\<^sup>*"
  shows "b \<in> Mk"
proof -
  from assms(3,1,2) have "b \<in> D \<and> elig b"
  proof (induction rule: rtrancl_induct)
    case base
    then show ?case by (simp add: walk_inv_def)
  next
    case (step y z)
    then have "y \<in> D" "elig y" "(y, z) \<in> E" "elig z" by auto
    with step.prems(1) show ?case by (auto simp: walk_inv_def)
  qed
  with assms(1) show ?thesis by (simp add: walk_inv_def)
qed

text \<open>
  The confirmation of a wallet transaction; whether a transaction is marked conflicted
  with a block; whether \<open>MarkConflicted\<close> updates a transaction
  (\<^verbatim>\<open>conflictconfirms < currentconfirm\<close>: the block is more conflicted than its depth says).
\<close>

definition confirm_of :: "CWallet \<Rightarrow> uint256 \<Rightarrow> Confirmation option" where
  "confirm_of w a = map_option m_confirm (map_of (mapWallet w) a)"




lemma confirm_of_mark_dirty_at [simp]: "confirm_of (mark_dirty_at h w) a = confirm_of w a"
  by (auto simp: confirm_of_def mark_dirty_at_def map_of_map_entry MarkDirty_def split: option.splits)

lemma confirm_of_MarkInputsDirty [simp]: "confirm_of (MarkInputsDirty t w) a = confirm_of w a"
proof -
  have a: "confirm_of (fold (\<lambda>txin w. mark_dirty_at (fst txin) w) xs w) a = confirm_of w a"
    for xs :: "COutPoint list" and w
    by (induction xs arbitrary: w) auto
  have b: "confirm_of (fold (\<lambda>nf w. case map_of (mapSproutNullifiersToNotes w) nf of
                              None \<Rightarrow> w | Some op \<Rightarrow> mark_dirty_at (sprout_hash op) w) xs w) a = confirm_of w a"
    for xs w
    by (induction xs arbitrary: w) (auto split: option.splits)
  have c: "confirm_of (fold (\<lambda>nf w. case map_of (mapSaplingNullifiersToNotes w) nf of
                         None \<Rightarrow> w | Some op \<Rightarrow> mark_dirty_at (sapling_hash op) w) xs w) a = confirm_of w a"
    for xs w
    by (induction xs arbitrary: w) (auto split: option.splits)
  show ?thesis by (simp add: MarkInputsDirty_def Let_def a b c)
qed










text \<open>
  Claim C9. When the depth of the conflicting block is not positive (the block is unknown
  or not in the main chain), \<open>MarkConflicted\<close> returns the wallet as it was: no transaction,
  no index and no database record changes.
\<close>

theorem MarkConflicted_unknown_block:
  assumes "getBlockDepth hashBlock' \<le> 0"
  shows "MarkConflicted getBlockDepth hashBlock' hashTx w = Inr w"
  using assms by (simp add: MarkConflicted_def)

text \<open>
  Three unconfirmed transactions that spend each other in a cycle, and a wallet in which
  transaction 2 spends the Sapling note of transaction 1.
\<close>

definition ex_cycle_wallet :: CWallet where
  "ex_cycle_wallet = ex_wallet
     [(1, ex_wtx 1 [(3, 0)] UNCONFIRMED 0), (2, ex_wtx 2 [(1, 0)] UNCONFIRMED 0),
      (3, ex_wtx 3 [(2, 0)] UNCONFIRMED 0)]
     [((1, 0), 2), ((2, 0), 3), ((3, 0), 1)]"


lemmas ex_walk_defs = MarkConflicted_def MarkConflicted_visit_def set_erase_def set_insert_def
  add_spenders_def spends_of_def lower_bound_def MarkInputsDirty_def mark_dirty_at_def
  MarkDirty_def setConflicted_def setAbandoned_def GetDepthInMainChain_def
  GetDepthInMainChainINTERNAL_def isUnconfirmed_def isAbandoned_def isConflicted_def InMempool_def
  ex_wallet_def ex_wtx_def ex_tx_def ex_note_def ex_chain_def less_prod_def Let_def


text \<open>An instance of C9: block 99 is not in the main chain.\<close>

theorem MarkConflicted_unknown_block_witness:
  "MarkConflicted ex_chain 99 1 ex_cycle_wallet = Inr ex_cycle_wallet"
proof -
  have "ex_chain 99 \<le> 0" by (simp add: ex_chain_def)
  then show ?thesis by (rule MarkConflicted_unknown_block)
qed


subsection \<open>\<^verbatim>\<open>CWallet::AbandonTransaction\<close>\<close>

text \<open>
  The body of the \<^verbatim>\<open>while (!todo.empty())\<close> loop after \<open>now\<close> has been moved from \<open>todo\<close>
  to \<open>done\<close>, with its three assertions.
\<close>

definition AbandonTransaction_visit ::
  "(uint256 \<Rightarrow> int) \<Rightarrow> uint256 \<Rightarrow> uint256 list \<Rightarrow> uint256 list \<Rightarrow> CWallet \<Rightarrow>
   error + (uint256 list \<times> CWallet)" where
  "AbandonTransaction_visit getBlockDepth now todo done w =
     (case map_of (mapWallet w) now of
        None \<Rightarrow> Inl AssertionFailed
      | Some wtx \<Rightarrow>
          (let currentconfirm = GetDepthInMainChain getBlockDepth wtx in
           if \<not> currentconfirm \<le> 0 then Inl AssertionFailed
           else if currentconfirm = 0 \<and> \<not> isAbandoned wtx then
             if InMempool wtx then Inl AssertionFailed
             else
               (let wtx1 = wtx\<lparr>m_confirm := (m_confirm wtx)\<lparr>nIndex := 0\<rparr>\<rparr>;
                    wtx2 = MarkDirty (setAbandoned wtx1);
                    w1 = w\<lparr>mapWallet := AList.map_entry now (\<lambda>_. wtx2) (mapWallet w),
                           db := db w @ [WriteTx wtx2]\<rparr>;
                    todo1 = add_spenders (spends_of now (mapTxSpends w1)) done todo
                in Inr (todo1, MarkInputsDirty (tx wtx2) w1))
           else Inr (todo, w)))"

lemma AbandonTransaction_visit_result:
  assumes "AbandonTransaction_visit c now todo done w = Inr (todo', w')"
  shows "mapTxSpends w' = mapTxSpends w"
    and "set todo' \<subseteq> set todo \<union> (snd ` set (mapTxSpends w) - set done)"
proof -
  from assms obtain wtx where "map_of (mapWallet w) now = Some wtx"
    by (auto simp: AbandonTransaction_visit_def split: option.splits)
  with assms show "mapTxSpends w' = mapTxSpends w"
    by (auto simp: AbandonTransaction_visit_def Let_def split: if_splits)
  from assms \<open>map_of (mapWallet w) now = Some wtx\<close>
  show "set todo' \<subseteq> set todo \<union> (snd ` set (mapTxSpends w) - set done)"
    using image_mono[OF spends_of_subset[of now "mapTxSpends w"], of snd]
    by (auto simp: AbandonTransaction_visit_def Let_def set_add_spenders split: if_splits)
qed

function AbandonTransaction_loop ::
  "(uint256 \<Rightarrow> int) \<Rightarrow> uint256 list \<Rightarrow> uint256 list \<Rightarrow> CWallet \<Rightarrow> error + CWallet" where
  "AbandonTransaction_loop getBlockDepth [] done w = Inr w"
| "AbandonTransaction_loop getBlockDepth (now # rest) done w =
     (case AbandonTransaction_visit getBlockDepth now (set_erase now (now # rest)) (set_insert now done) w of
        Inl e \<Rightarrow> Inl e
      | Inr (todo', w') \<Rightarrow> AbandonTransaction_loop getBlockDepth todo' (set_insert now done) w')"
  by pat_completeness auto
termination
proof (relation "inv_image (less_than <*lex*> less_than)
    (\<lambda>(c, todo, done, w). walk_measure (mapTxSpends w) todo done)")
  show "wf (inv_image (less_than <*lex*> less_than)
    (\<lambda>(c, todo, done, w). walk_measure (mapTxSpends w) todo done))"
    by (intro wf_inv_image wf_lex_prod wf_less_than)
next
  fix c now rest "done" w x todo' w'
  assume v: "AbandonTransaction_visit c now (set_erase now (now # rest)) (set_insert now done) w = Inr x"
    and x: "(todo', w') = x"
  from v x have r: "AbandonTransaction_visit c now (set_erase now (now # rest)) (set_insert now done) w = Inr (todo', w')"
    by simp
  from AbandonTransaction_visit_result[OF r]
  have s: "mapTxSpends w' = mapTxSpends w"
    and t: "set todo' \<subseteq> (set (now # rest) - {now}) \<union> (snd ` set (mapTxSpends w) - insert now (set done))"
    by auto
  have "(walk_measure (mapTxSpends w) todo' (set_insert now done), walk_measure (mapTxSpends w) (now # rest) done)
           \<in> less_than <*lex*> less_than"
    by (rule walk_measure_decreases[OF _ t]) simp
  with s show "((c, todo', set_insert now done, w'), (c, now # rest, done, w))
       \<in> inv_image (less_than <*lex*> less_than)
    (\<lambda>(c, todo, done, w). walk_measure (mapTxSpends w) todo done)"
    by simp
qed

definition AbandonTransaction :: "(uint256 \<Rightarrow> int) \<Rightarrow> uint256 \<Rightarrow> CWallet \<Rightarrow> error + (bool \<times> CWallet)" where
  "AbandonTransaction getBlockDepth hashTx w =
     (case map_of (mapWallet w) hashTx of
        None \<Rightarrow> Inl AssertionFailed
      | Some origtx \<Rightarrow>
          if GetDepthInMainChain getBlockDepth origtx \<noteq> 0 \<or> InMempool origtx then Inr (False, w)
          else (case AbandonTransaction_loop getBlockDepth [hashTx] [] w of
                  Inl e \<Rightarrow> Inl e
                | Inr w' \<Rightarrow> Inr (True, w')))"

text \<open>
  Whether a transaction is abandoned; whether the walk abandons it (its depth is 0 and it
  is not abandoned yet); whether the walk passes its assertions at it.
\<close>

definition abandoned :: "CWallet \<Rightarrow> uint256 \<Rightarrow> bool" where
  "abandoned w a = (case confirm_of w a of None \<Rightarrow> False | Some cf \<Rightarrow> status cf = ABANDONED)"

definition abandonable :: "(uint256 \<Rightarrow> int) \<Rightarrow> CWallet \<Rightarrow> uint256 \<Rightarrow> bool" where
  "abandonable getBlockDepth w a =
     (case map_of (mapWallet w) a of
        None \<Rightarrow> False
      | Some wtx \<Rightarrow> GetDepthInMainChain getBlockDepth wtx = 0 \<and> \<not> isAbandoned wtx)"

definition passes_assertions :: "(uint256 \<Rightarrow> int) \<Rightarrow> CWallet \<Rightarrow> uint256 \<Rightarrow> bool" where
  "passes_assertions getBlockDepth w a =
     (case map_of (mapWallet w) a of
        None \<Rightarrow> False
      | Some wtx \<Rightarrow> GetDepthInMainChain getBlockDepth wtx \<le> 0 \<and>
          (GetDepthInMainChain getBlockDepth wtx = 0 \<and> \<not> isAbandoned wtx \<longrightarrow> \<not> InMempool wtx))"

text \<open>
  The consistency of the wallet that the assertions rely on ("if the orig tx was not in
  block/mempool, none of its spends can be"): every registered spender of an output of a
  transaction that has depth 0, is not abandoned and is not in the mempool passes the
  assertions.
\<close>

definition abandon_safe :: "(uint256 \<Rightarrow> int) \<Rightarrow> CWallet \<Rightarrow> bool" where
  "abandon_safe getBlockDepth w =
     list_all (\<lambda>it. abandonable getBlockDepth w (fst (fst it)) \<and>
                    passes_assertions getBlockDepth w (fst (fst it)) \<longrightarrow>
                    passes_assertions getBlockDepth w (snd it)) (mapTxSpends w)"

definition abandon_closure :: "(uint256 \<Rightarrow> int) \<Rightarrow> CWallet \<Rightarrow> uint256 \<Rightarrow> uint256 set" where
  "abandon_closure getBlockDepth w a =
     {b. abandonable getBlockDepth w a \<and>
         (a, b) \<in> (spend_edges w \<inter> {(x, y). abandonable getBlockDepth w x \<and>
                                            abandonable getBlockDepth w y})\<^sup>*}"

definition mempool_of :: "CWallet \<Rightarrow> uint256 \<Rightarrow> bool option" where
  "mempool_of w a = map_option fInMempool (map_of (mapWallet w) a)"

lemma mempool_of_mark_dirty_at [simp]: "mempool_of (mark_dirty_at h w) a = mempool_of w a"
  by (auto simp: mempool_of_def mark_dirty_at_def map_of_map_entry MarkDirty_def split: option.splits)

lemma mempool_of_MarkInputsDirty [simp]: "mempool_of (MarkInputsDirty t w) a = mempool_of w a"
proof -
  have a: "mempool_of (fold (\<lambda>txin w. mark_dirty_at (fst txin) w) xs w) a = mempool_of w a"
    for xs :: "COutPoint list" and w
    by (induction xs arbitrary: w) auto
  have b: "mempool_of (fold (\<lambda>nf w. case map_of (mapSproutNullifiersToNotes w) nf of
                              None \<Rightarrow> w | Some op \<Rightarrow> mark_dirty_at (sprout_hash op) w) xs w) a = mempool_of w a"
    for xs w
    by (induction xs arbitrary: w) (auto split: option.splits)
  have c: "mempool_of (fold (\<lambda>nf w. case map_of (mapSaplingNullifiersToNotes w) nf of
                         None \<Rightarrow> w | Some op \<Rightarrow> mark_dirty_at (sapling_hash op) w) xs w) a = mempool_of w a"
    for xs w
    by (induction xs arbitrary: w) (auto split: option.splits)
  show ?thesis by (simp add: MarkInputsDirty_def Let_def a b c)
qed

lemma isAbandoned_cong: "m_confirm a = m_confirm b \<Longrightarrow> isAbandoned a = isAbandoned b"
  by (simp add: isAbandoned_def)

lemma abandon_views_cong:
  assumes "confirm_of w a = confirm_of w0 a" and "mempool_of w a = mempool_of w0 a"
  shows "abandonable c w a = abandonable c w0 a"
    and "passes_assertions c w a = passes_assertions c w0 a"
proof -
  from assms consider "map_of (mapWallet w) a = None" "map_of (mapWallet w0) a = None"
    | x y where "map_of (mapWallet w) a = Some x" "map_of (mapWallet w0) a = Some y"
        "m_confirm x = m_confirm y" "fInMempool x = fInMempool y"
    by (cases "map_of (mapWallet w) a"; cases "map_of (mapWallet w0) a")
       (auto simp: confirm_of_def mempool_of_def)
  then have "abandonable c w a = abandonable c w0 a \<and> passes_assertions c w a = passes_assertions c w0 a"
  proof cases
    case 1
    then show ?thesis by (simp add: abandonable_def passes_assertions_def)
  next
    case 2
    from 2(3) have "GetDepthInMainChain c x = GetDepthInMainChain c y" "isAbandoned x = isAbandoned y"
      by (rule GetDepthInMainChain_cong, rule isAbandoned_cong)
    with 2 show ?thesis by (simp add: abandonable_def passes_assertions_def InMempool_def)
  qed
  then show "abandonable c w a = abandonable c w0 a"
    and "passes_assertions c w a = passes_assertions c w0 a" by simp_all
qed

definition AbandonTransaction_inv ::
  "(uint256 \<Rightarrow> int) \<Rightarrow> CWallet \<Rightarrow> uint256 \<Rightarrow> uint256 list \<Rightarrow> uint256 list \<Rightarrow> CWallet \<Rightarrow> bool" where
  "AbandonTransaction_inv c w0 start todo done w =
     (mapTxSpends w = mapTxSpends w0 \<and>
      (\<forall>b. b \<notin> set done \<longrightarrow> confirm_of w b = confirm_of w0 b) \<and>
      (\<forall>b. (confirm_of w b = None) = (confirm_of w0 b = None)) \<and>
      (\<forall>b. mempool_of w b = mempool_of w0 b) \<and>
      (\<forall>b. abandoned w0 b \<longrightarrow> abandoned w b) \<and>
      walk_inv (spend_edges w0) (abandonable c w0) {a. passes_assertions c w0 a} start
        (set todo) (set done) {a. abandoned w a})"

lemma AbandonTransaction_visit_inv:
  assumes inv: "AbandonTransaction_inv c w0 start (now # rest) done w"
    and sorted: "sorted (map fst (mapTxSpends w0))"
    and closed: "\<forall>a \<in> {a. passes_assertions c w0 a}. abandonable c w0 a \<longrightarrow>
        spend_edges w0 `` {a} \<subseteq> {a. passes_assertions c w0 a}"
  shows "\<exists>todo' w'. AbandonTransaction_visit c now (set_erase now (now # rest)) (set_insert now done) w
            = Inr (todo', w') \<and>
          AbandonTransaction_inv c w0 start todo' (set_insert now done) w'"
proof -
  from inv have sp: "mapTxSpends w = mapTxSpends w0"
    and unch: "\<And>b. b \<notin> set done \<Longrightarrow> confirm_of w b = confirm_of w0 b"
    and nn: "\<And>b. (confirm_of w b = None) = (confirm_of w0 b = None)"
    and mp: "\<And>b. mempool_of w b = mempool_of w0 b"
    and ab: "\<And>b. abandoned w0 b \<Longrightarrow> abandoned w b"
    and wi: "walk_inv (spend_edges w0) (abandonable c w0) {a. passes_assertions c w0 a} start
        (set (now # rest)) (set done) {a. abandoned w a}"
    by (auto simp: AbandonTransaction_inv_def)
  from wi have nd: "now \<notin> set done" and ok0: "passes_assertions c w0 now"
    by (auto simp: walk_inv_def)
  from abandon_views_cong[OF unch[OF nd] mp] ok0
  have el: "abandonable c w now = abandonable c w0 now" and ok: "passes_assertions c w now"
    by simp_all
  from ok obtain wtx where wtx: "map_of (mapWallet w) now = Some wtx"
    and le: "GetDepthInMainChain c wtx \<le> 0"
    and nm: "GetDepthInMainChain c wtx = 0 \<and> \<not> isAbandoned wtx \<longrightarrow> \<not> InMempool wtx"
    by (auto simp: passes_assertions_def split: option.splits)
  show ?thesis
  proof (cases "GetDepthInMainChain c wtx = 0 \<and> \<not> isAbandoned wtx")
    case True
    with wtx el have elig: "abandonable c w0 now" by (simp add: abandonable_def)
    define wtx2 where "wtx2 = MarkDirty (setAbandoned (wtx\<lparr>m_confirm := (m_confirm wtx)\<lparr>nIndex := 0\<rparr>\<rparr>))"
    define w1 where "w1 = w\<lparr>mapWallet := AList.map_entry now (\<lambda>_. wtx2) (mapWallet w), db := db w @ [WriteTx wtx2]\<rparr>"
    define todo' where "todo' = add_spenders (spends_of now (mapTxSpends w1)) (set_insert now done) (set_erase now (now # rest))"
    define w' where "w' = MarkInputsDirty (tx wtx2) w1"
    have v: "AbandonTransaction_visit c now (set_erase now (now # rest)) (set_insert now done) w = Inr (todo', w')"
      using wtx True nm by (simp add: AbandonTransaction_visit_def Let_def wtx2_def w1_def todo'_def w'_def)
    have sp1: "mapTxSpends w1 = mapTxSpends w0" using sp by (simp add: w1_def)
    have "confirm_of w1 b = (if b = now then Some (m_confirm wtx2) else confirm_of w b)" for b
      using wtx by (auto simp: w1_def confirm_of_def map_of_map_entry)
    then have cf: "confirm_of w' b = (if b = now then Some (m_confirm wtx2) else confirm_of w b)" for b
      by (simp add: w'_def)
    have "mempool_of w1 b = mempool_of w b" for b
      using wtx by (auto simp: w1_def mempool_of_def map_of_map_entry wtx2_def MarkDirty_def setAbandoned_def)
    then have mp': "mempool_of w' b = mempool_of w0 b" for b
      using mp by (simp add: w'_def)
    have st: "status (m_confirm wtx2) = ABANDONED"
      by (simp add: wtx2_def MarkDirty_def setAbandoned_def)
    have T': "set todo' = (set (now # rest) - {now}) \<union> (spend_edges w0 `` {now} - insert now (set done))"
      using spends_of_edges[OF sorted, of now] by (simp add: todo'_def set_add_spenders sp1)
    have mono: "{a. abandoned w a} \<subseteq> {a. abandoned w' a}"
      using st by (auto simp: abandoned_def cf)
    have nowM: "now \<in> {a. abandoned w' a}"
      using st by (simp add: abandoned_def cf)
    have "walk_inv (spend_edges w0) (abandonable c w0) {a. passes_assertions c w0 a} start (set todo')
        (insert now (set done)) {a. abandoned w' a}"
      by (rule walk_inv_expand[OF wi _ elig closed mono nowM T']) simp
    moreover have "mapTxSpends w' = mapTxSpends w0" by (simp add: w'_def sp1)
    moreover have "\<forall>b. b \<notin> set (set_insert now done) \<longrightarrow> confirm_of w' b = confirm_of w0 b"
      using unch by (simp add: cf)
    moreover have "\<forall>b. (confirm_of w' b = None) = (confirm_of w0 b = None)"
    proof
      fix b
      show "(confirm_of w' b = None) = (confirm_of w0 b = None)"
      proof (cases "b = now")
        case True
        from wtx nn[of now] have "confirm_of w0 now \<noteq> None" by (simp add: confirm_of_def)
        with True show ?thesis by (simp add: cf)
      next
        case False
        with nn[of b] show ?thesis by (simp add: cf)
      qed
    qed
    moreover have "\<forall>b. abandoned w0 b \<longrightarrow> abandoned w' b" using ab mono by blast
    ultimately have "AbandonTransaction_inv c w0 start todo' (set_insert now done) w'"
      using mp' by (simp add: AbandonTransaction_inv_def)
    with v show ?thesis by blast
  next
    case False
    with wtx el have nelig: "\<not> abandonable c w0 now" by (simp add: abandonable_def)
    have v: "AbandonTransaction_visit c now (set_erase now (now # rest)) (set_insert now done) w
        = Inr (set_erase now (now # rest), w)"
      using wtx False le by (auto simp: AbandonTransaction_visit_def Let_def)
    have "walk_inv (spend_edges w0) (abandonable c w0) {a. passes_assertions c w0 a} start
        (set (now # rest) - {now}) (insert now (set done)) {a. abandoned w a}"
      by (rule walk_inv_skip[OF wi _ nelig]) simp_all
    then have "AbandonTransaction_inv c w0 start (set_erase now (now # rest)) (set_insert now done) w"
      using sp unch nn mp ab by (simp add: AbandonTransaction_inv_def)
    with v show ?thesis by blast
  qed
qed

lemma AbandonTransaction_loop_inv:
  "AbandonTransaction_inv c w0 start todo done w \<Longrightarrow>
   sorted (map fst (mapTxSpends w0)) \<Longrightarrow>
   \<forall>a \<in> {a. passes_assertions c w0 a}. abandonable c w0 a \<longrightarrow>
        spend_edges w0 `` {a} \<subseteq> {a. passes_assertions c w0 a} \<Longrightarrow>
   \<exists>w' done'. AbandonTransaction_loop c todo done w = Inr w' \<and>
          AbandonTransaction_inv c w0 start [] done' w'"
proof (induction c todo "done" w rule: AbandonTransaction_loop.induct)
  case (1 c "done" w)
  then show ?case by auto
next
  case (2 c now rest "done" w)
  from AbandonTransaction_visit_inv[OF "2.prems"(1,2,3)] obtain todo' w' where
    v: "AbandonTransaction_visit c now (set_erase now (now # rest)) (set_insert now done) w = Inr (todo', w')"
    and i: "AbandonTransaction_inv c w0 start todo' (set_insert now done) w'" by auto
  from "2.IH"[OF v refl i "2.prems"(2,3)] v show ?case by simp
qed

lemma abandon_safe_closed:
  assumes "abandon_safe c w"
  shows "\<forall>a \<in> {a. passes_assertions c w a}. abandonable c w a \<longrightarrow>
        spend_edges w `` {a} \<subseteq> {a. passes_assertions c w a}"
  using assms
  by (fastforce simp: abandon_safe_def list_all_iff spend_edges_def)

text \<open>
  Claim C4, as amended. \<open>AbandonTransaction\<close> returns false, and changes nothing, for every
  wallet transaction whose confirmation depth is not 0 (confirmed, or conflicted) or that
  is in the mempool. For a transaction of depth 0 outside the mempool, in a wallet whose
  spend index is in key order and whose unconfirmed spends are consistent, it returns true;
  afterwards the transaction is abandoned, and so is every transaction reached from it by
  transparent spends through transactions that were at depth 0 and not abandoned.
\<close>

theorem AbandonTransaction_result:
  assumes "map_of (mapWallet w) hashTx = Some origtx"
  shows "(GetDepthInMainChain getBlockDepth origtx \<noteq> 0 \<or> InMempool origtx \<longrightarrow>
            AbandonTransaction getBlockDepth hashTx w = Inr (False, w)) \<and>
         (GetDepthInMainChain getBlockDepth origtx = 0 \<and> \<not> InMempool origtx \<and>
          sorted (map fst (mapTxSpends w)) \<and> abandon_safe getBlockDepth w \<longrightarrow>
            (\<exists>w'. AbandonTransaction getBlockDepth hashTx w = Inr (True, w') \<and>
                  abandoned w' hashTx \<and>
                  (\<forall>b \<in> abandon_closure getBlockDepth w hashTx. abandoned w' b)))"
proof (intro conjI impI)
  assume "GetDepthInMainChain getBlockDepth origtx \<noteq> 0 \<or> InMempool origtx"
  with assms show "AbandonTransaction getBlockDepth hashTx w = Inr (False, w)"
    by (auto simp: AbandonTransaction_def)
next
  assume a: "GetDepthInMainChain getBlockDepth origtx = 0 \<and> \<not> InMempool origtx \<and>
          sorted (map fst (mapTxSpends w)) \<and> abandon_safe getBlockDepth w"
  with assms have ok: "passes_assertions getBlockDepth w hashTx"
    by (simp add: passes_assertions_def)
  then have "walk_inv (spend_edges w) (abandonable getBlockDepth w) {a. passes_assertions getBlockDepth w a}
      hashTx (set [hashTx]) (set []) {a. abandoned w a}"
    by (simp add: walk_inv_def)
  then have "AbandonTransaction_inv getBlockDepth w hashTx [hashTx] [] w"
    by (simp add: AbandonTransaction_inv_def)
  from AbandonTransaction_loop_inv[OF this _ abandon_safe_closed] a
  obtain w' done' where l: "AbandonTransaction_loop getBlockDepth [hashTx] [] w = Inr w'"
    and i: "AbandonTransaction_inv getBlockDepth w hashTx [] done' w'" by blast
  from i have wi: "walk_inv (spend_edges w) (abandonable getBlockDepth w) {a. passes_assertions getBlockDepth w a}
      hashTx {} (set done') {a. abandoned w' a}"
    and ab: "\<And>b. abandoned w b \<Longrightarrow> abandoned w' b"
    by (simp_all add: AbandonTransaction_inv_def)
  have cl: "abandoned w' b" if "b \<in> abandon_closure getBlockDepth w hashTx" for b
    using walk_inv_final[OF wi] that by (simp add: abandon_closure_def)
  have "abandoned w' hashTx"
  proof (cases "abandonable getBlockDepth w hashTx")
    case True
    then have "hashTx \<in> abandon_closure getBlockDepth w hashTx" by (simp add: abandon_closure_def)
    then show ?thesis by (rule cl)
  next
    case False
    with assms a have "isAbandoned origtx" by (simp add: abandonable_def)
    with assms have "abandoned w hashTx"
      by (simp add: abandoned_def confirm_of_def isAbandoned_def)
    then show ?thesis by (rule ab)
  qed
  moreover from l assms a have "AbandonTransaction getBlockDepth hashTx w = Inr (True, w')"
    by (simp add: AbandonTransaction_def)
  ultimately show "\<exists>w'. AbandonTransaction getBlockDepth hashTx w = Inr (True, w') \<and>
                  abandoned w' hashTx \<and>
                  (\<forall>b \<in> abandon_closure getBlockDepth w hashTx. abandoned w' b)"
    using cl by blast
qed

text \<open>
  Transaction 1 is unconfirmed, transaction 2 spends it, transaction 3 spends
  transaction 2, and transaction 4 is conflicted with block 100.
\<close>

definition ex_chain_wallet :: CWallet where
  "ex_chain_wallet = ex_wallet
     [(1, ex_wtx 1 [] UNCONFIRMED 0), (2, ex_wtx 2 [(1, 0)] UNCONFIRMED 0),
      (3, ex_wtx 3 [(2, 1)] UNCONFIRMED 0), (4, ex_wtx 4 [] CONFLICTED 100)]
     [((1, 0), 2), ((2, 1), 3)]"

text \<open>An instance of C4: abandoning transaction 1 abandons its two descendants.\<close>

theorem AbandonTransaction_result_witness:
  "\<exists>w'. AbandonTransaction ex_chain 1 ex_chain_wallet = Inr (True, w') \<and>
        abandoned w' 1 \<and> abandoned w' 2 \<and> abandoned w' 3"
proof -
  have m: "map_of (mapWallet ex_chain_wallet) 1 = Some (ex_wtx 1 [] UNCONFIRMED 0)"
    by (simp add: ex_chain_wallet_def ex_wallet_def)
  have ab: "abandonable ex_chain ex_chain_wallet x" if "x \<in> {1, 2, 3}" for x
    using that by (auto simp: abandonable_def ex_chain_wallet_def ex_walk_defs)
  have pa: "passes_assertions ex_chain ex_chain_wallet x" if "x \<in> {1, 2, 3}" for x
    using that by (auto simp: passes_assertions_def ex_chain_wallet_def ex_walk_defs)
  have a: "GetDepthInMainChain ex_chain (ex_wtx 1 [] UNCONFIRMED 0) = 0 \<and>
      \<not> InMempool (ex_wtx 1 [] UNCONFIRMED 0) \<and>
      sorted (map fst (mapTxSpends ex_chain_wallet)) \<and> abandon_safe ex_chain ex_chain_wallet"
    using pa by (simp add: abandon_safe_def ex_chain_wallet_def ex_walk_defs less_eq_prod_def)
  have e: "(1, 2) \<in> spend_edges ex_chain_wallet" "(2, 3) \<in> spend_edges ex_chain_wallet"
    by (auto simp: spend_edges_def ex_chain_wallet_def ex_wallet_def)
  let ?R = "spend_edges ex_chain_wallet \<inter> {(x, y). abandonable ex_chain ex_chain_wallet x \<and>
      abandonable ex_chain ex_chain_wallet y}"
  from e ab have "(1, 2) \<in> ?R" "(2, 3) \<in> ?R" by auto
  then have "(1, 2) \<in> ?R\<^sup>*" "(1, 3) \<in> ?R\<^sup>*"
    by (blast intro: rtrancl.intros)+
  with ab have "{2, 3} \<subseteq> abandon_closure ex_chain ex_chain_wallet 1"
    by (simp add: abandon_closure_def)
  with AbandonTransaction_result[where getBlockDepth=ex_chain, OF m] a show ?thesis by blast
qed

text \<open>
  Claim C4 as stated fails for the conflicted transaction 4: its depth is not greater
  than 0 and it is not in the mempool, and the call returns false.
\<close>

theorem AbandonTransaction_conflicted_counterexample:
  "map_of (mapWallet ex_chain_wallet) 4 = Some (ex_wtx 4 [] CONFLICTED 100) \<and>
   \<not> GetDepthInMainChain ex_chain (ex_wtx 4 [] CONFLICTED 100) > 0 \<and>
   \<not> InMempool (ex_wtx 4 [] CONFLICTED 100) \<and>
   AbandonTransaction ex_chain 4 ex_chain_wallet = Inr (False, ex_chain_wallet)"
  by (simp add: AbandonTransaction_def ex_chain_wallet_def ex_walk_defs)

end
